theory Spec2Isabelle
  imports Complex_Main
begin

section \<open>Python values used by the tutorial\<close>

text \<open>
  The tutorial \<^verbatim>\<open>tutorials/tutorial05_scenarios.ipynb\<close> builds a ring road from a
  dictionary of numeric parameters. A parameter is a Python \<^verbatim>\<open>int\<close>, of any size, or
  a finite Python \<^verbatim>\<open>float\<close>; non-numeric and non-finite parameter values are outside
  this development. A float is held as the real number it denotes; negative zero is
  not told apart from zero.
\<close>

datatype num = I int | F real

fun val :: "num \<Rightarrow> real" where
  "val (I n) = of_int n"
| "val (F x) = x"

subsection \<open>Rounding\<close>

text \<open>
  Every float operation delivers its exact result rounded to a float. The functions
  below take the rounding as a parameter: \<open>exact\<close> leaves the result as it is, the
  arithmetic of the real numbers; \<open>binary64\<close> is the rounding of Python's floats,
  to the nearest number with 53 significant bits and an exponent of at least -1074, a
  tie going to the even neighbour. A result beyond the largest float, where Python
  yields \<^verbatim>\<open>inf\<close>, is not modelled: the statements about \<open>binary64\<close> that depend on
  the size of the radius bound it.
\<close>

type_synonym rounding = "real \<Rightarrow> real"

definition exact :: rounding where
  "exact x = x"

text \<open>Rounding to the nearest integer, a tie going to the even neighbour.\<close>

definition round_half_even :: "real \<Rightarrow> int" where
  "round_half_even x =
     (let f = \<lfloor>x\<rfloor>; d = x - of_int f
      in if d < 1 / 2 then f else if 1 / 2 < d then f + 1 else if even f then f else f + 1)"

definition binary64 :: rounding where
  "binary64 x =
     (if x = 0 then 0
      else let e = max (\<lfloor>log 2 \<bar>x\<bar>\<rfloor> - 52) (- 1074)
           in of_int (round_half_even (x / 2 powi e)) * 2 powi e)"

text \<open>
  A number as Python holds it: any int, or a float, whose value rounding leaves
  unchanged.
\<close>

fun is_binary64 :: "num \<Rightarrow> bool" where
  "is_binary64 (I n) = True"
| "is_binary64 (F x) = (binary64 x = x)"

text \<open>
  The accuracy of a computed float: \<open>x\<close> is within \<open>k\<close> roundings of the positive
  number \<open>X\<close> when its relative error is at most that of \<open>k\<close> successive roundings
  to 53 bits.
\<close>

definition within_roundings :: "nat \<Rightarrow> real \<Rightarrow> real \<Rightarrow> bool" where
  "within_roundings k x X = (\<bar>x - X\<bar> \<le> ((1 + 1 / 2 ^ 53) ^ k - 1) * X)"

subsection \<open>Arithmetic\<close>

text \<open>Unary minus, \<^verbatim>\<open>-r\<close>: an int stays an int, a float stays a float.\<close>

fun neg :: "num \<Rightarrow> num" where
  "neg (I n) = I (- n)"
| "neg (F x) = F (- x)"

text \<open>
  \<^verbatim>\<open>float(v)\<close>, the conversion an int undergoes when it meets a float. An int that
  rounds beyond the largest float raises \<^verbatim>\<open>OverflowError\<close> instead: that is an int of
  magnitude \<open>2 ^ 1024 - 2 ^ 970\<close> or more. A float never does.
\<close>

fun to_float :: "rounding \<Rightarrow> num \<Rightarrow> real" where
  "to_float rnd (I n) = rnd (of_int n)"
| "to_float rnd (F x) = x"

fun float_overflow :: "num \<Rightarrow> bool" where
  "float_overflow (I n) = (2 ^ 1024 - 2 ^ 970 \<le> \<bar>n\<bar>)"
| "float_overflow (F x) = False"

text \<open>
  \<^verbatim>\<open>a * b\<close>: int times int is an int, computed exactly; anything else is the
  product of the two floats, rounded.
\<close>

fun mul :: "rounding \<Rightarrow> num \<Rightarrow> num \<Rightarrow> num" where
  "mul rnd (I a) (I b) = I (a * b)"
| "mul rnd a b = F (rnd (to_float rnd a * to_float rnd b))"

text \<open>
  \<^verbatim>\<open>a / 2\<close>: true division always gives a float, the quotient rounded once, also
  for an int. The tutorial divides by the literal 2 only, so \<^verbatim>\<open>ZeroDivisionError\<close>
  cannot arise.
\<close>

definition div2 :: "rounding \<Rightarrow> num \<Rightarrow> num" where
  "div2 rnd a = F (rnd (val a / 2))"

text \<open>\<^verbatim>\<open>numpy.pi\<close> is a float, the one nearest to \<open>pi\<close>.\<close>

definition npi :: "rounding \<Rightarrow> num" where
  "npi rnd = F (rnd pi)"

text \<open>
  What a descriptor holds. \<open>Str s\<close> is the \<^verbatim>\<open>str\<close> with the characters \<open>s\<close>;
  \<open>Repr v\<close> is the \<^verbatim>\<open>str\<close> object \<^verbatim>\<open>repr(v)\<close> of a number \<open>v\<close>. Python's
  \<^verbatim>\<open>repr\<close> of an int or a float reads back as the same number, so \<open>Repr v\<close>
  stands for that string without fixing its digits. \<open>Num v\<close> is a number itself.
\<close>

datatype pyval = Num num | Str string | Repr num



text \<open>The number a \<^verbatim>\<open>repr\<close> string reads back as (\<^verbatim>\<open>float(s)\<close>).\<close>

fun number_of :: "pyval \<Rightarrow> real option" where
  "number_of (Repr v) = Some (val v)"
| "number_of (Num v) = Some (val v)"
| "number_of (Str s) = None"

text \<open>
  \<open>KeyError k\<close> is what a dictionary lookup of an absent key \<open>k\<close> raises, and
  \<open>OverflowError\<close> what the conversion of too large an int to a float raises.
  \<open>ConfigurationError\<close> and \<open>ValidationError\<close> are the errors of the
  specification's taxonomy; no function of the tutorial raises them.
\<close>

datatype error = KeyError string | OverflowError | ConfigurationError | ValidationError

text \<open>\<^verbatim>\<open>d[k]\<close> on a dictionary.\<close>

definition getitem :: "(string \<Rightarrow> 'v option) \<Rightarrow> string \<Rightarrow> error + 'v" where
  "getitem d k = (case d k of None \<Rightarrow> Inl (KeyError k) | Some v \<Rightarrow> Inr v)"

text \<open>\<^verbatim>\<open>NetParams\<close>: the generator reads its \<^verbatim>\<open>additional_params\<close> only.\<close>

record net_params =
  additional_params :: "string \<Rightarrow> num option"

definition ADDITIONAL_NET_PARAMS :: "string \<Rightarrow> num option" where
  "ADDITIONAL_NET_PARAMS =
     [''radius'' \<mapsto> I 40, ''num_lanes'' \<mapsto> I 1, ''speed_limit'' \<mapsto> I 30]"

text \<open>\<^verbatim>\<open>net_params = NetParams(additional_params=additional_net_params)\<close>\<close>

definition tutorial_net_params :: net_params where
  "tutorial_net_params = \<lparr>additional_params = ADDITIONAL_NET_PARAMS\<rparr>"

text \<open>A descriptor is a dictionary literal: its keys in order, with their values.\<close>

type_synonym descriptor = "(string \<times> pyval) list"

section \<open>String formatting and numpy\<close>

text \<open>\<^verbatim>\<open>sep.join(xs)\<close>.\<close>

fun join :: "string \<Rightarrow> string list \<Rightarrow> string" where
  "join sep [] = []"
| "join sep [x] = x"
| "join sep (x # y # ys) = x @ sep @ join sep (y # ys)"

definition digit :: "nat \<Rightarrow> char" where
  "digit d = ''0123456789'' ! d"

text \<open>The decimal digits of a natural number, most significant first.\<close>

function str_nat :: "nat \<Rightarrow> string" where
  "str_nat n = (if n < 10 then [digit n] else str_nat (n div 10) @ [digit (n mod 10)])"
  by pat_completeness auto
termination
  by (relation "measure (\<lambda>n. n)") auto

declare str_nat.simps [simp del]

text \<open>
  \<^verbatim>\<open>"%.2f" % x\<close>: the sign of \<open>x\<close> (kept even when the digits round to zero), the
  integer part, a point and two decimals of \<open>x\<close> rounded to hundredths.
\<close>

definition hundredths :: "real \<Rightarrow> nat" where
  "hundredths x = nat \<bar>round_half_even (100 * x)\<bar>"

definition fmt2 :: "real \<Rightarrow> string" where
  "fmt2 x =
     (let h = hundredths x
      in (if x < 0 then ''-'' else []) @ str_nat (h div 100) @ ''.''
           @ [digit (h mod 100 div 10), digit (h mod 10)])"

text \<open>
  \<^verbatim>\<open>numpy.linspace(start, stop, num)\<close> with the end point included. With
  \<^verbatim>\<open>delta = stop - start\<close> and \<^verbatim>\<open>step = delta / (num - 1)\<close>, sample \<open>i\<close> is
  \<^verbatim>\<open>i * step + start\<close> (\<^verbatim>\<open>i / (num - 1) * delta + start\<close> when the step is 0), each
  operation rounded, and the last sample is set to \<^verbatim>\<open>stop\<close> when \<^verbatim>\<open>num > 1\<close>.
\<close>

definition linspace :: "rounding \<Rightarrow> real \<Rightarrow> real \<Rightarrow> nat \<Rightarrow> real list" where
  "linspace rnd start stop n =
     (if n = 0 then []
      else if n = 1 then [start]
      else
        let delta = rnd (stop - start);
            step = rnd (delta / real (n - 1));
            y = (\<lambda>i. if step = 0 then rnd (rnd (real i / real (n - 1)) * delta)
                      else rnd (real i * step))
        in map (\<lambda>i. rnd (y i + start)) [0..<n - 1] @ [stop])"

section \<open>The generator\<close>

text \<open>
  \<^verbatim>\<open>specify_nodes\<close>: four nodes at the bottom, right, top and left of the ring.
  \<open>ring_nodes r\<close> is the list the method binds to \<^verbatim>\<open>nodes\<close> and returns.
\<close>

definition ring_nodes :: "num \<Rightarrow> descriptor list" where
  "ring_nodes r =
     [[(''id'', Str ''bottom''), (''x'', Repr (I 0)), (''y'', Repr (neg r))],
      [(''id'', Str ''right''), (''x'', Repr r), (''y'', Repr (I 0))],
      [(''id'', Str ''top''), (''x'', Repr (I 0)), (''y'', Repr r)],
      [(''id'', Str ''left''), (''x'', Repr (neg r)), (''y'', Repr (I 0))]]"

definition specify_nodes :: "net_params \<Rightarrow> error + descriptor list" where
  "specify_nodes net_params =
     (case getitem (additional_params net_params) ''radius'' of
        Inl e \<Rightarrow> Inl e
      | Inr r \<Rightarrow> Inr (ring_nodes r))"

text \<open>
  The control points of one arc, as the list comprehension computes them before
  formatting: \<^verbatim>\<open>(r * cos(t), r * sin(t)) for t in linspace(a, b, 40)\<close>. numpy's
  \<^verbatim>\<open>cos\<close> and \<^verbatim>\<open>sin\<close> are taken to deliver the cosine and the sine rounded to a
  float.
\<close>

definition arc_points :: "rounding \<Rightarrow> num \<Rightarrow> real \<Rightarrow> real \<Rightarrow> (real \<times> real) list" where
  "arc_points rnd r a b =
     map (\<lambda>t. (val (mul rnd r (F (rnd (cos t)))), val (mul rnd r (F (rnd (sin t))))))
       (linspace rnd a b 40)"

text \<open>
  \<^verbatim>\<open>" ".join(["%.2f,%.2f" % (r * cos(t), r * sin(t)) for t in linspace(a, b, 40)])\<close>
\<close>

definition arc_shape :: "rounding \<Rightarrow> num \<Rightarrow> real \<Rightarrow> real \<Rightarrow> string" where
  "arc_shape rnd r a b =
     join '' '' (map (\<lambda>(x, y). fmt2 x @ '','' @ fmt2 y) (arc_points rnd r a b))"

text \<open>
  \<^verbatim>\<open>specify_edges\<close> looks up the radius, computes \<^verbatim>\<open>edgelen = r * pi / 2\<close>, then
  looks up num_lanes and speed_limit, in this order. \<^verbatim>\<open>r * pi\<close> converts an int
  radius to a float, which raises \<^verbatim>\<open>OverflowError\<close> when the int is too large.
  \<open>ring_edges rnd r lanes speed_limit\<close> is the list the method binds to \<^verbatim>\<open>edges\<close>
  and returns; the angles \<^verbatim>\<open>-pi / 2\<close>, \<^verbatim>\<open>pi / 2\<close>, \<^verbatim>\<open>pi\<close> and \<^verbatim>\<open>3 * pi / 2\<close> are
  computed in the same arithmetic.
\<close>

definition edgelen :: "rounding \<Rightarrow> num \<Rightarrow> num" where
  "edgelen rnd r = div2 rnd (mul rnd r (npi rnd))"

definition ring_edges :: "rounding \<Rightarrow> num \<Rightarrow> num \<Rightarrow> num \<Rightarrow> descriptor list" where
  "ring_edges rnd r lanes speed_limit =
     [[(''id'', Str ''edge0''), (''numLanes'', Repr lanes), (''speed'', Repr speed_limit),
       (''from'', Str ''bottom''), (''to'', Str ''right''), (''length'', Repr (edgelen rnd r)),
       (''shape'', Str (arc_shape rnd r (val (div2 rnd (neg (npi rnd)))) 0))],
      [(''id'', Str ''edge1''), (''numLanes'', Repr lanes), (''speed'', Repr speed_limit),
       (''from'', Str ''right''), (''to'', Str ''top''), (''length'', Repr (edgelen rnd r)),
       (''shape'', Str (arc_shape rnd r 0 (val (div2 rnd (npi rnd)))))],
      [(''id'', Str ''edge2''), (''numLanes'', Repr lanes), (''speed'', Repr speed_limit),
       (''from'', Str ''top''), (''to'', Str ''left''), (''length'', Repr (edgelen rnd r)),
       (''shape'', Str (arc_shape rnd r (val (div2 rnd (npi rnd))) (val (npi rnd))))],
      [(''id'', Str ''edge3''), (''numLanes'', Repr lanes), (''speed'', Repr speed_limit),
       (''from'', Str ''left''), (''to'', Str ''bottom''), (''length'', Repr (edgelen rnd r)),
       (''shape'', Str (arc_shape rnd r (val (npi rnd))
                         (val (div2 rnd (mul rnd (I 3) (npi rnd))))))]]"

definition specify_edges :: "rounding \<Rightarrow> net_params \<Rightarrow> error + descriptor list" where
  "specify_edges rnd net_params =
     (case getitem (additional_params net_params) ''radius'' of
        Inl e \<Rightarrow> Inl e
      | Inr r \<Rightarrow>
     (if float_overflow r then Inl OverflowError else
     (case getitem (additional_params net_params) ''num_lanes'' of
        Inl e \<Rightarrow> Inl e
      | Inr lanes \<Rightarrow>
     (case getitem (additional_params net_params) ''speed_limit'' of
        Inl e \<Rightarrow> Inl e
      | Inr speed_limit \<Rightarrow> Inr (ring_edges rnd r lanes speed_limit)))))"

text \<open>\<^verbatim>\<open>specify_routes\<close>: a dictionary from each starting edge to its route.\<close>

definition specify_routes :: "net_params \<Rightarrow> (string \<times> string list) list" where
  "specify_routes net_params =
     [(''edge0'', [''edge0'', ''edge1'', ''edge2'', ''edge3'']),
      (''edge1'', [''edge1'', ''edge2'', ''edge3'', ''edge0'']),
      (''edge2'', [''edge2'', ''edge3'', ''edge0'', ''edge1'']),
      (''edge3'', [''edge3'', ''edge0'', ''edge1'', ''edge2''])]"

section \<open>The scenario\<close>

text \<open>
  \<^verbatim>\<open>specify_edge_starts\<close> reads the radius of the scenario's own
  \<^verbatim>\<open>net_params\<close>. In Python \<^verbatim>\<open>r * 1/2 * pi\<close> is \<^verbatim>\<open>((r * 1) / 2) * pi\<close> and
  \<^verbatim>\<open>r * 3/2 * pi\<close> is \<^verbatim>\<open>((r * 3) / 2) * pi\<close>; the first offset is the int 0.
  \<open>edgestarts rnd r\<close> is the list the method binds to \<^verbatim>\<open>edgestarts\<close> and returns.
  An int radius too large for a float raises \<^verbatim>\<open>OverflowError\<close>, in \<^verbatim>\<open>r * 1/2\<close> or
  in \<^verbatim>\<open>r * pi\<close>.
\<close>

definition edgestarts :: "rounding \<Rightarrow> num \<Rightarrow> (string \<times> num) list" where
  "edgestarts rnd r =
     [(''edge0'', I 0),
      (''edge1'', mul rnd (div2 rnd (mul rnd r (I 1))) (npi rnd)),
      (''edge2'', mul rnd r (npi rnd)),
      (''edge3'', mul rnd (div2 rnd (mul rnd r (I 3))) (npi rnd))]"

definition specify_edge_starts :: "rounding \<Rightarrow> net_params \<Rightarrow> error + (string \<times> num) list" where
  "specify_edge_starts rnd net_params =
     (case getitem (additional_params net_params) ''radius'' of
        Inl e \<Rightarrow> Inl e
      | Inr r \<Rightarrow> if float_overflow r then Inl OverflowError else Inr (edgestarts rnd r))"

section \<open>Reading the descriptors\<close>

text \<open>The value of a string attribute and of a numeric attribute of a descriptor.\<close>

definition str_attr :: "descriptor \<Rightarrow> string \<Rightarrow> string option" where
  "str_attr d k = (case map_of d k of Some (Str s) \<Rightarrow> Some s | _ \<Rightarrow> None)"

definition num_attr :: "descriptor \<Rightarrow> string \<Rightarrow> real option" where
  "num_attr d k = (case map_of d k of Some v \<Rightarrow> number_of v | None \<Rightarrow> None)"

text \<open>The descriptor with a given id, the first one in list order.\<close>

definition by_id :: "descriptor list \<Rightarrow> string \<Rightarrow> descriptor option" where
  "by_id ds i = find (\<lambda>d. str_attr d ''id'' = Some i) ds"

section \<open>The route table of the specification\<close>

text \<open>
  Modelled from the spec: the step of the RouteTable component, which the tutorial
  does not contain. The successor of an edge in a route is the edge that follows its
  first occurrence, the first edge of the route when the end is reached. \<open>None\<close>
  stands for an edge that is not on the route.
\<close>

fun successor :: "'a \<Rightarrow> 'a list \<Rightarrow> 'a option" where
  "successor e route =
     (case dropWhile (\<lambda>x. x \<noteq> e) route of
        [] \<Rightarrow> None
      | [x] \<Rightarrow> Some (hd route)
      | x # y # ys \<Rightarrow> Some y)"

text \<open>
  Modelled from the spec: \<^verbatim>\<open>next_edge(current_edge_id)\<close> of the RouteTable
  component returns the edge following the current edge in the route associated with
  that edge, wrapping at the end. \<open>None\<close> stands for an edge without a route.
\<close>

definition next_edge :: "(string \<times> string list) list \<Rightarrow> string \<Rightarrow> string option" where
  "next_edge routes e =
     (case map_of routes e of None \<Rightarrow> None | Some route \<Rightarrow> successor e route)"

text \<open>Modelled from the spec: \<^verbatim>\<open>next_edge\<close> applied \<open>n\<close> times.\<close>

fun next_edge_times :: "(string \<times> string list) list \<Rightarrow> nat \<Rightarrow> string \<Rightarrow> string option" where
  "next_edge_times routes 0 e = Some e"
| "next_edge_times routes (Suc n) e =
     (case next_edge routes e of None \<Rightarrow> None | Some e' \<Rightarrow> next_edge_times routes n e')"

text \<open>
  Modelled from the spec: the same walk inside one fixed route, the successor within
  that route applied \<open>n\<close> times.
\<close>

fun successor_times :: "'a list \<Rightarrow> nat \<Rightarrow> 'a \<Rightarrow> 'a option" where
  "successor_times route 0 e = Some e"
| "successor_times route (Suc n) e =
     (case successor e route of None \<Rightarrow> None | Some e' \<Rightarrow> successor_times route n e')"

section \<open>Properties of the descriptors, as predicates\<close>

text \<open>The ids of a list of descriptors, in list order.\<close>

definition ids :: "descriptor list \<Rightarrow> string list" where
  "ids ds = List.map_filter (\<lambda>d. str_attr d ''id'') ds"

text \<open>
  Edge \<open>a\<close> leads into edge \<open>b\<close>: both are edges of the list, and the to node of
  \<open>a\<close> is the from node of \<open>b\<close>.
\<close>

definition connected :: "descriptor list \<Rightarrow> string \<Rightarrow> string \<Rightarrow> bool" where
  "connected edges a b =
     (case (by_id edges a, by_id edges b) of
        (Some da, Some db) \<Rightarrow>
          (case (str_attr da ''to'', str_attr db ''from'') of
             (Some t, Some f) \<Rightarrow> t = f
           | _ \<Rightarrow> False)
      | _ \<Rightarrow> False)"

text \<open>
  The consecutive pairs of a route, and the same with the pair that wraps from the
  last edge to the first.
\<close>

fun consecutive :: "'a list \<Rightarrow> ('a \<times> 'a) list" where
  "consecutive (x # y # ys) = (x, y) # consecutive (y # ys)"
| "consecutive xs = []"

definition cyclic_pairs :: "'a list \<Rightarrow> ('a \<times> 'a) list" where
  "cyclic_pairs route =
     (case route of [] \<Rightarrow> [] | x # xs \<Rightarrow> consecutive route @ [(last route, x)])"

definition head_to_tail_cycle :: "descriptor list \<Rightarrow> string list \<Rightarrow> bool" where
  "head_to_tail_cycle edges route =
     list_all (\<lambda>(a, b). connected edges a b) (cyclic_pairs route)"



text \<open>Parameter dictionaries with keys missing.\<close>

definition no_radius :: net_params where
  "no_radius = \<lparr>additional_params = [''num_lanes'' \<mapsto> I 1, ''speed_limit'' \<mapsto> I 30]\<rparr>"

definition only_radius :: net_params where
  "only_radius = \<lparr>additional_params = [''radius'' \<mapsto> I 40]\<rparr>"

definition no_speed :: net_params where
  "no_speed = \<lparr>additional_params = [''radius'' \<mapsto> I 40, ''num_lanes'' \<mapsto> I 1]\<rparr>"

text \<open>
  The tutorial's parameters with another radius:
  \<^verbatim>\<open>additional_net_params["radius"] = r\<close> on a copy of \<^verbatim>\<open>ADDITIONAL_NET_PARAMS\<close>.
\<close>

definition ring_params :: "num \<Rightarrow> net_params" where
  "ring_params r = \<lparr>additional_params = ADDITIONAL_NET_PARAMS(''radius'' \<mapsto> r)\<rparr>"

text \<open>An int radius beyond the range of floats, and nothing else.\<close>

definition huge_radius :: net_params where
  "huge_radius = \<lparr>additional_params = [''radius'' \<mapsto> I (10 ^ 309)]\<rparr>"

section \<open>Lengths and offsets\<close>

text \<open>The length of the edge with a given id, read from the edge descriptors.\<close>

definition edge_length :: "descriptor list \<Rightarrow> string \<Rightarrow> real option" where
  "edge_length edges e =
     (case by_id edges e of None \<Rightarrow> None | Some d \<Rightarrow> num_attr d ''length'')"

text \<open>
  Modelled from the spec: the total length of a closed network, which the tutorial
  does not compute, is the sum of the edge lengths along one full cycle of a route,
  added up from 0 in route order in the given arithmetic.
\<close>

definition total_length :: "rounding \<Rightarrow> descriptor list \<Rightarrow> string list \<Rightarrow> real option" where
  "total_length rnd edges route =
     map_option (foldl (\<lambda>s l. rnd (s + l)) 0) (those (map (edge_length edges) route))"

text \<open>The offset of an edge in the list \<^verbatim>\<open>specify_edge_starts\<close> returns.\<close>

definition offset_of :: "(string \<times> num) list \<Rightarrow> string \<Rightarrow> real option" where
  "offset_of starts e = map_option val (map_of starts e)"

text \<open>
  \<^verbatim>\<open>x % m\<close> on floats, for a modulus above 0: the result lies in \<open>[0, m)\<close>.
\<close>

definition fmod :: "real \<Rightarrow> real \<Rightarrow> real" where
  "fmod x m = x - m * of_int \<lfloor>x / m\<rfloor>"

text \<open>The offsets along a route increase strictly.\<close>

definition offsets_increasing :: "(string \<times> num) list \<Rightarrow> string list \<Rightarrow> bool" where
  "offsets_increasing starts route =
     (case those (map (offset_of starts) route) of
        None \<Rightarrow> False
      | Some offs \<Rightarrow> sorted_wrt (<) offs)"

text \<open>
  Along a route, wrap included, the offset of the next edge is the offset of the
  edge plus its length, modulo the total length: \<^verbatim>\<open>(offset + length) % total\<close> in
  the given arithmetic.
\<close>

definition offsets_linked ::
    "rounding \<Rightarrow> (string \<times> num) list \<Rightarrow> descriptor list \<Rightarrow> real \<Rightarrow> string \<Rightarrow> string \<Rightarrow> bool" where
  "offsets_linked rnd starts edges tot a b =
     (case (offset_of starts a, edge_length edges a, offset_of starts b) of
        (Some oa, Some la, Some ob) \<Rightarrow> ob = rnd (fmod (rnd (oa + la)) tot)
      | _ \<Rightarrow> False)"

definition offsets_consistent ::
    "rounding \<Rightarrow> (string \<times> num) list \<Rightarrow> descriptor list \<Rightarrow> string list \<Rightarrow> bool" where
  "offsets_consistent rnd starts edges route =
     (case total_length rnd edges route of
        None \<Rightarrow> False
      | Some tot \<Rightarrow>
          list_all (\<lambda>(a, b). offsets_linked rnd starts edges tot a b) (cyclic_pairs route))"

text \<open>
  The same up to a tolerance. The distance of two positions on a ring of length
  \<open>tot\<close> is the shorter way round; the offset of the next edge and the offset of the
  edge plus its length are within \<open>tol\<close> times the total length of each other.
\<close>

definition ring_distance :: "real \<Rightarrow> real \<Rightarrow> real \<Rightarrow> real" where
  "ring_distance tot x y = (let z = fmod (x - y) tot in min z (tot - z))"

definition offsets_near ::
    "real \<Rightarrow> (string \<times> num) list \<Rightarrow> descriptor list \<Rightarrow> real \<Rightarrow> string \<Rightarrow> string \<Rightarrow> bool" where
  "offsets_near tol starts edges tot a b =
     (case (offset_of starts a, edge_length edges a, offset_of starts b) of
        (Some oa, Some la, Some ob) \<Rightarrow> ring_distance tot ob (oa + la) \<le> tol * tot
      | _ \<Rightarrow> False)"

definition offsets_consistent_within ::
    "real \<Rightarrow> rounding \<Rightarrow> (string \<times> num) list \<Rightarrow> descriptor list \<Rightarrow> string list \<Rightarrow> bool" where
  "offsets_consistent_within tol rnd starts edges route =
     (case total_length rnd edges route of
        None \<Rightarrow> False
      | Some tot \<Rightarrow>
          list_all (\<lambda>(a, b). offsets_near tol starts edges tot a b) (cyclic_pairs route))"

section \<open>The position resolver of the specification\<close>

text \<open>
  The PositionResolver component (section 4.4 of the specification) is not part of
  the tutorial; its two conversions are modelled from the specification, over the
  edge starts of \<^verbatim>\<open>specify_edge_starts\<close> and the lengths of \<^verbatim>\<open>specify_edges\<close>.
  The specification fixes no arithmetic for them: sums and differences of positions
  are exact.
\<close>






section \<open>Reading a shape string\<close>

text \<open>\<^verbatim>\<open>s.split(c)\<close> for a one-character separator: the pieces between separators.\<close>

fun split :: "char \<Rightarrow> string \<Rightarrow> string list" where
  "split c [] = [[]]"
| "split c (x # xs) =
     (if x = c then [] # split c xs
      else (case split c xs of [] \<Rightarrow> [[x]] | y # ys \<Rightarrow> (x # y) # ys))"

definition is_digit :: "char \<Rightarrow> bool" where
  "is_digit ch = (ch \<in> set ''0123456789'')"

text \<open>
  A number written with exactly two decimals: an optional minus sign, one or more
  digits, a point, two digits.
\<close>

definition two_decimals :: "string \<Rightarrow> bool" where
  "two_decimals s =
     (let body = (case s of [] \<Rightarrow> [] | ch # t \<Rightarrow> if ch = CHR ''-'' then t else s)
      in takeWhile is_digit body \<noteq> []
         \<and> (case dropWhile is_digit body of
              [p, a, b] \<Rightarrow> p = CHR ''.'' \<and> is_digit a \<and> is_digit b
            | _ \<Rightarrow> False))"

text \<open>A pair \<^verbatim>\<open>"x,y"\<close> of such numbers, and a space-separated sequence of pairs.\<close>

definition is_pair :: "string \<Rightarrow> bool" where
  "is_pair s =
     (case split CHR '','' s of [a, b] \<Rightarrow> two_decimals a \<and> two_decimals b | _ \<Rightarrow> False)"

definition well_formed_shape :: "string \<Rightarrow> bool" where
  "well_formed_shape s = list_all is_pair (split CHR '' '' s)"

section \<open>The points of a shape string\<close>

text \<open>The value of a decimal digit, and of a string of digits.\<close>

definition digit_val :: "char \<Rightarrow> nat" where
  "digit_val ch = of_char ch - 48"

definition nat_of_digits :: "string \<Rightarrow> nat" where
  "nat_of_digits ds = foldl (\<lambda>n ch. 10 * n + digit_val ch) 0 ds"

text \<open>
  \<^verbatim>\<open>float(s)\<close> on a number written with two decimals; \<open>None\<close> for any other
  string.
\<close>

definition parse2 :: "string \<Rightarrow> real option" where
  "parse2 s =
     (let minus = (case s of [] \<Rightarrow> False | ch # t \<Rightarrow> ch = CHR ''-'');
          body = (if minus then tl s else s);
          whole = takeWhile is_digit body
      in if whole = [] then None
         else (case dropWhile is_digit body of
                 [p, a, b] \<Rightarrow>
                   if p = CHR ''.'' \<and> is_digit a \<and> is_digit b
                   then Some ((if minus then - 1 else 1)
                              * (real (nat_of_digits whole) + real (nat_of_digits [a, b]) / 100))
                   else None
               | _ \<Rightarrow> None))"

definition parse_point :: "string \<Rightarrow> (real \<times> real) option" where
  "parse_point s =
     (case split CHR '','' s of
        [a, b] \<Rightarrow> (case (parse2 a, parse2 b) of (Some x, Some y) \<Rightarrow> Some (x, y) | _ \<Rightarrow> None)
      | _ \<Rightarrow> None)"

text \<open>The polyline a shape string denotes.\<close>

definition shape_points :: "string \<Rightarrow> (real \<times> real) list option" where
  "shape_points s = those (map parse_point (split CHR '' '' s))"

text \<open>The coordinates of the node with a given id.\<close>

definition node_xy :: "descriptor list \<Rightarrow> string \<Rightarrow> (real \<times> real) option" where
  "node_xy nodes i =
     (case by_id nodes i of
        None \<Rightarrow> None
      | Some n \<Rightarrow>
          (case (num_attr n ''x'', num_attr n ''y'') of
             (Some x, Some y) \<Rightarrow> Some (x, y)
           | _ \<Rightarrow> None))"

text \<open>Two points coincide within 1e-2 in each coordinate.\<close>

definition coincide :: "real \<times> real \<Rightarrow> real \<times> real \<Rightarrow> bool" where
  "coincide a b = (\<bar>fst a - fst b\<bar> \<le> 1 / 100 \<and> \<bar>snd a - snd b\<bar> \<le> 1 / 100)"

text \<open>
  The first point of an edge's shape coincides with its from node and the last point
  with its to node.
\<close>

definition shape_endpoints_match :: "descriptor list \<Rightarrow> descriptor \<Rightarrow> bool" where
  "shape_endpoints_match nodes e =
     (case (map_of e ''shape'', str_attr e ''from'', str_attr e ''to'') of
        (Some (Str s), Some f, Some t) \<Rightarrow>
          (case (shape_points s, node_xy nodes f, node_xy nodes t) of
             (Some pts, Some pf, Some pt) \<Rightarrow>
               pts \<noteq> [] \<and> coincide (hd pts) pf \<and> coincide (last pts) pt
           | _ \<Rightarrow> False)
      | _ \<Rightarrow> False)"

section \<open>Routes are closed cycles\<close>

lemma next_edge_times_4:
  "next_edge_times rts 4 e =
     (case next_edge rts e of None \<Rightarrow> None | Some a \<Rightarrow>
      case next_edge rts a of None \<Rightarrow> None | Some b \<Rightarrow>
      case next_edge rts b of None \<Rightarrow> None | Some c \<Rightarrow>
      next_edge rts c)"
  by (simp add: eval_nat_numeral split: option.splits)

text \<open>
  C4. For every starting edge of the ring, \<^verbatim>\<open>next_edge\<close> (the successor in that
  edge's route as returned by \<^verbatim>\<open>specify_routes\<close>, wrapping from the last edge of
  the route to the first) applied as many times as the route is long returns the
  starting edge. The same holds from every edge of a route when the walk stays
  inside that one route.
\<close>

theorem next_edge_closed_cycle:
  "\<forall>(k, route) \<in> set (specify_routes p).
     next_edge_times (specify_routes p) (length route) k = Some k
     \<and> (\<forall>e \<in> set route. successor_times route (length route) e = Some e)"
proof -
  have len: "\<forall>(k, route) \<in> set (specify_routes p). length route = 4"
    by (simp add: specify_routes_def)
  have cyc: "\<forall>(k, route) \<in> set (specify_routes p).
               next_edge_times (specify_routes p) 4 k = Some k"
    unfolding next_edge_times_4
    by (simp add: specify_routes_def next_edge_def)
  have own: "\<forall>(k, route) \<in> set (specify_routes p).
               \<forall>e \<in> set route. successor_times route (length route) e = Some e"
    by (simp add: specify_routes_def)
  from len cyc own show ?thesis by fastforce
qed

theorem next_edge_closed_cycle_witness:
  "(''edge2'', [''edge2'', ''edge3'', ''edge0'', ''edge1'']) \<in> set (specify_routes tutorial_net_params)
   \<and> next_edge_times (specify_routes tutorial_net_params) 4 ''edge2'' = Some ''edge2''
   \<and> ''edge0'' \<in> set [''edge2'', ''edge3'', ''edge0'', ''edge1'']
   \<and> successor_times [''edge2'', ''edge3'', ''edge0'', ''edge1''] 4 ''edge0'' = Some ''edge0''"
proof -
  have m: "(''edge2'', [''edge2'', ''edge3'', ''edge0'', ''edge1''])
             \<in> set (specify_routes tutorial_net_params)"
    by (simp add: specify_routes_def)
  have l: "length [''edge2'', ''edge3'', ''edge0'', ''edge1''] = 4"
    by simp
  have i: "''edge0'' \<in> set [''edge2'', ''edge3'', ''edge0'', ''edge1'']"
    by simp
  from next_edge_closed_cycle [of tutorial_net_params] m i
  have "next_edge_times (specify_routes tutorial_net_params)
          (length [''edge2'', ''edge3'', ''edge0'', ''edge1'']) ''edge2'' = Some ''edge2''"
    and "successor_times [''edge2'', ''edge3'', ''edge0'', ''edge1'']
          (length [''edge2'', ''edge3'', ''edge0'', ''edge1'']) ''edge0'' = Some ''edge0''"
    by blast+
  then have "next_edge_times (specify_routes tutorial_net_params) 4 ''edge2'' = Some ''edge2''"
    and "successor_times [''edge2'', ''edge3'', ''edge0'', ''edge1''] 4 ''edge0'' = Some ''edge0''"
    unfolding l .
  with m i show ?thesis by blast
qed

section \<open>Shapes of the results\<close>

lemma specify_nodes_cases:
  "specify_nodes p =
     (case additional_params p ''radius'' of
        None \<Rightarrow> Inl (KeyError ''radius'')
      | Some r \<Rightarrow> Inr (ring_nodes r))"
  by (simp add: specify_nodes_def getitem_def split: option.splits)

lemma specify_edges_cases:
  "specify_edges rnd p =
     (case additional_params p ''radius'' of
        None \<Rightarrow> Inl (KeyError ''radius'')
      | Some r \<Rightarrow>
          if float_overflow r then Inl OverflowError
          else
          (case additional_params p ''num_lanes'' of
             None \<Rightarrow> Inl (KeyError ''num_lanes'')
           | Some lanes \<Rightarrow>
               (case additional_params p ''speed_limit'' of
                  None \<Rightarrow> Inl (KeyError ''speed_limit'')
                | Some s \<Rightarrow> Inr (ring_edges rnd r lanes s))))"
  by (simp add: specify_edges_def getitem_def split: option.splits)

lemma specify_edge_starts_cases:
  "specify_edge_starts rnd p =
     (case additional_params p ''radius'' of
        None \<Rightarrow> Inl (KeyError ''radius'')
      | Some r \<Rightarrow> if float_overflow r then Inl OverflowError else Inr (edgestarts rnd r))"
  by (simp add: specify_edge_starts_def getitem_def split: option.splits)

lemma specify_edges_InrD:
  assumes "specify_edges rnd p = Inr edges"
  obtains r lanes s where
    "additional_params p ''radius'' = Some r"
    "additional_params p ''num_lanes'' = Some lanes"
    "additional_params p ''speed_limit'' = Some s"
    "edges = ring_edges rnd r lanes s"
  using assms unfolding specify_edges_cases by (auto split: option.splits if_splits)

lemma tutorial_params [simp]:
  "additional_params tutorial_net_params ''radius'' = Some (I 40)"
  "additional_params tutorial_net_params ''num_lanes'' = Some (I 1)"
  "additional_params tutorial_net_params ''speed_limit'' = Some (I 30)"
  by (simp_all add: tutorial_net_params_def ADDITIONAL_NET_PARAMS_def)

lemma tutorial_edges:
  "specify_edges rnd tutorial_net_params = Inr (ring_edges rnd (I 40) (I 1) (I 30))"
  by (simp add: specify_edges_cases)

lemma tutorial_nodes: "specify_nodes tutorial_net_params = Inr (ring_nodes (I 40))"
  by (simp add: specify_nodes_cases)

lemma ids_ring_edges: "ids (ring_edges rnd r l s) = [''edge0'', ''edge1'', ''edge2'', ''edge3'']"
  by (simp add: ids_def ring_edges_def str_attr_def List.map_filter_simps)

lemma connected_ring_edges:
  "connected (ring_edges rnd r l s) ''edge0'' ''edge1''"
  "connected (ring_edges rnd r l s) ''edge1'' ''edge2''"
  "connected (ring_edges rnd r l s) ''edge2'' ''edge3''"
  "connected (ring_edges rnd r l s) ''edge3'' ''edge0''"
  by (simp_all add: connected_def by_id_def ring_edges_def str_attr_def)

section \<open>Routes are head-to-tail cycles\<close>

text \<open>
  C10. For every route returned by \<^verbatim>\<open>specify_routes\<close> and every consecutive pair
  of edges in it, the wrap from the last edge to the first included, the to node of
  the earlier edge is the from node of the later edge in the descriptors returned by
  \<^verbatim>\<open>specify_edges\<close>.
\<close>

theorem routes_head_to_tail:
  assumes "specify_edges rnd p = Inr edges"
  shows "\<forall>(k, route) \<in> set (specify_routes p). head_to_tail_cycle edges route"
proof -
  from assms obtain r l s where e: "edges = ring_edges rnd r l s"
    by (rule specify_edges_InrD)
  show ?thesis
    unfolding e specify_routes_def
    by (simp add: head_to_tail_cycle_def cyclic_pairs_def connected_ring_edges)
qed

theorem routes_head_to_tail_witness:
  "specify_edges binary64 tutorial_net_params = Inr (ring_edges binary64 (I 40) (I 1) (I 30))
   \<and> (''edge3'', [''edge3'', ''edge0'', ''edge1'', ''edge2'']) \<in> set (specify_routes tutorial_net_params)
   \<and> head_to_tail_cycle (ring_edges binary64 (I 40) (I 1) (I 30)) [''edge3'', ''edge0'', ''edge1'', ''edge2'']"
proof -
  have m: "(''edge3'', [''edge3'', ''edge0'', ''edge1'', ''edge2''])
             \<in> set (specify_routes tutorial_net_params)"
    by (simp add: specify_routes_def)
  from routes_head_to_tail [OF tutorial_edges, of binary64] m
  have "head_to_tail_cycle (ring_edges binary64 (I 40) (I 1) (I 30)) [''edge3'', ''edge0'', ''edge1'', ''edge2'']"
    by blast
  with tutorial_edges m show ?thesis by blast
qed

section \<open>Route coverage\<close>

text \<open>
  C5. Every route returned by \<^verbatim>\<open>specify_routes\<close> is a sequence that begins with
  its key edge and cycles back to it: the last edge of the route leads into the key
  edge. The edge ids that appear across all routes are exactly the ids of the edges
  returned by \<^verbatim>\<open>specify_edges\<close>, each of which has an id.
\<close>

theorem route_coverage:
  assumes "specify_edges rnd p = Inr edges"
  shows "(\<forall>(k, route) \<in> set (specify_routes p).
            route \<noteq> [] \<and> hd route = k \<and> connected edges (last route) k)
         \<and> (\<Union>(k, route) \<in> set (specify_routes p). set route) = set (ids edges)
         \<and> length (ids edges) = length edges"
proof -
  from assms obtain r l s where e: "edges = ring_edges rnd r l s"
    by (rule specify_edges_InrD)
  have routes: "\<forall>(k, route) \<in> set (specify_routes p).
            route \<noteq> [] \<and> hd route = k \<and> connected edges (last route) k"
    unfolding e by (simp add: specify_routes_def connected_ring_edges)
  have cover: "(\<Union>(k, route) \<in> set (specify_routes p). set route) = set (ids edges)"
    unfolding e ids_ring_edges by (auto simp: specify_routes_def)
  have len: "length (ids edges) = length edges"
    unfolding e ids_ring_edges by (simp add: ring_edges_def)
  from routes cover len show ?thesis by blast
qed

theorem route_coverage_witness:
  "specify_edges binary64 tutorial_net_params = Inr (ring_edges binary64 (I 40) (I 1) (I 30))
   \<and> (''edge1'', [''edge1'', ''edge2'', ''edge3'', ''edge0'']) \<in> set (specify_routes tutorial_net_params)
   \<and> hd [''edge1'', ''edge2'', ''edge3'', ''edge0''] = ''edge1''
   \<and> connected (ring_edges binary64 (I 40) (I 1) (I 30)) (last [''edge1'', ''edge2'', ''edge3'', ''edge0'']) ''edge1''
   \<and> (\<Union>(k, route) \<in> set (specify_routes tutorial_net_params). set route)
       = set (ids (ring_edges binary64 (I 40) (I 1) (I 30)))"
proof -
  have m: "(''edge1'', [''edge1'', ''edge2'', ''edge3'', ''edge0''])
             \<in> set (specify_routes tutorial_net_params)"
    by (simp add: specify_routes_def)
  note t = route_coverage [OF tutorial_edges, of binary64]
  from t m have "hd [''edge1'', ''edge2'', ''edge3'', ''edge0''] = ''edge1''
    \<and> connected (ring_edges binary64 (I 40) (I 1) (I 30)) (last [''edge1'', ''edge2'', ''edge3'', ''edge0'']) ''edge1''"
    by blast
  with t m tutorial_edges show ?thesis by blast
qed

section \<open>Absent parameters\<close>

lemma missing_params [simp]:
  "additional_params no_radius ''radius'' = None"
  "additional_params only_radius ''radius'' = Some (I 40)"
  "additional_params only_radius ''num_lanes'' = None"
  "additional_params no_speed ''radius'' = Some (I 40)"
  "additional_params no_speed ''num_lanes'' = Some (I 1)"
  "additional_params no_speed ''speed_limit'' = None"
  "additional_params huge_radius ''radius'' = Some (I (10 ^ 309))"
  "additional_params huge_radius ''num_lanes'' = None"
  by (simp_all add: no_radius_def only_radius_def no_speed_def huge_radius_def)

lemma float_overflow_huge: "float_overflow (I (10 ^ 309))"
  by simp

lemma no_overflow_40: "\<not> float_overflow (I 40)"
  by simp

text \<open>
  C8, as stated, fails: without a radius \<^verbatim>\<open>specify_nodes\<close> and \<^verbatim>\<open>specify_edges\<close>
  raise the \<^verbatim>\<open>KeyError\<close> of the dictionary lookup, not a \<^verbatim>\<open>ConfigurationError\<close>,
  and \<^verbatim>\<open>specify_nodes\<close> returns its nodes when the lane count and the speed limit
  are absent.
\<close>

theorem missing_parameter_counterexample:
  "specify_nodes no_radius = Inl (KeyError ''radius'')
   \<and> specify_nodes no_radius \<noteq> Inl ConfigurationError
   \<and> specify_edges binary64 no_radius = Inl (KeyError ''radius'')
   \<and> specify_edges binary64 no_radius \<noteq> Inl ConfigurationError
   \<and> specify_nodes only_radius = Inr (ring_nodes (I 40))"
  by (simp add: specify_nodes_cases specify_edges_cases)

text \<open>
  C8, amended. A parameter that is absent surfaces as the \<^verbatim>\<open>KeyError\<close> of the
  lookup that misses it, never as a \<^verbatim>\<open>ConfigurationError\<close>. \<^verbatim>\<open>specify_nodes\<close> looks
  up the radius only: it fails with \<^verbatim>\<open>KeyError('radius')\<close> when the radius is absent
  and returns its nodes otherwise. \<^verbatim>\<open>specify_edges\<close> fails with
  \<^verbatim>\<open>KeyError('radius')\<close> when the radius is absent; with \<^verbatim>\<open>OverflowError\<close>, before
  it looks at the other keys, when the radius is an int too large for a float;
  otherwise with the \<^verbatim>\<open>KeyError\<close> of the first absent key in the order num_lanes,
  speed_limit; and it returns its edges when all three are present.
\<close>

theorem missing_parameter_key_error:
  "(additional_params p ''radius'' = None \<longrightarrow>
      specify_nodes p = Inl (KeyError ''radius'')
      \<and> specify_edges rnd p = Inl (KeyError ''radius''))
   \<and> (additional_params p ''radius'' = Some r \<longrightarrow> specify_nodes p = Inr (ring_nodes r))
   \<and> (additional_params p ''radius'' = Some r \<and> float_overflow r \<longrightarrow>
        specify_edges rnd p = Inl OverflowError)
   \<and> (additional_params p ''radius'' = Some r \<and> \<not> float_overflow r
        \<and> additional_params p ''num_lanes'' = None \<longrightarrow>
        specify_edges rnd p = Inl (KeyError ''num_lanes''))
   \<and> (additional_params p ''radius'' = Some r \<and> \<not> float_overflow r
        \<and> additional_params p ''num_lanes'' = Some l
        \<and> additional_params p ''speed_limit'' = None \<longrightarrow>
        specify_edges rnd p = Inl (KeyError ''speed_limit''))
   \<and> (additional_params p ''radius'' = Some r \<and> \<not> float_overflow r
        \<and> additional_params p ''num_lanes'' = Some l
        \<and> additional_params p ''speed_limit'' = Some s \<longrightarrow>
        specify_edges rnd p = Inr (ring_edges rnd r l s))"
  by (simp add: specify_nodes_cases specify_edges_cases)

theorem missing_parameter_key_error_witness:
  "additional_params no_radius ''radius'' = None
   \<and> specify_nodes no_radius = Inl (KeyError ''radius'')
   \<and> specify_edges binary64 no_radius = Inl (KeyError ''radius'')
   \<and> additional_params huge_radius ''radius'' = Some (I (10 ^ 309))
   \<and> float_overflow (I (10 ^ 309))
   \<and> specify_edges binary64 huge_radius = Inl OverflowError
   \<and> additional_params only_radius ''radius'' = Some (I 40)
   \<and> \<not> float_overflow (I 40)
   \<and> additional_params only_radius ''num_lanes'' = None
   \<and> specify_nodes only_radius = Inr (ring_nodes (I 40))
   \<and> specify_edges binary64 only_radius = Inl (KeyError ''num_lanes'')
   \<and> additional_params no_speed ''radius'' = Some (I 40)
   \<and> additional_params no_speed ''num_lanes'' = Some (I 1)
   \<and> additional_params no_speed ''speed_limit'' = None
   \<and> specify_edges binary64 no_speed = Inl (KeyError ''speed_limit'')
   \<and> additional_params tutorial_net_params ''radius'' = Some (I 40)
   \<and> additional_params tutorial_net_params ''num_lanes'' = Some (I 1)
   \<and> additional_params tutorial_net_params ''speed_limit'' = Some (I 30)
   \<and> specify_edges binary64 tutorial_net_params = Inr (ring_edges binary64 (I 40) (I 1) (I 30))"
proof -
  note o = float_overflow_huge no_overflow_40
  from missing_parameter_key_error [of no_radius binary64]
  have a: "specify_nodes no_radius = Inl (KeyError ''radius'')"
    "specify_edges binary64 no_radius = Inl (KeyError ''radius'')"
    by simp_all
  from missing_parameter_key_error [of huge_radius binary64 "I (10 ^ 309)"] o
  have b: "specify_edges binary64 huge_radius = Inl OverflowError"
    by (simp only: missing_params simp_thms)
  from missing_parameter_key_error [of only_radius binary64 "I 40"] o
  have c: "specify_nodes only_radius = Inr (ring_nodes (I 40))"
    "specify_edges binary64 only_radius = Inl (KeyError ''num_lanes'')"
    by (simp_all only: missing_params simp_thms)
  from missing_parameter_key_error [of no_speed binary64 "I 40" "I 1"] o
  have d: "specify_edges binary64 no_speed = Inl (KeyError ''speed_limit'')"
    by (simp only: missing_params simp_thms)
  from missing_parameter_key_error [of tutorial_net_params binary64 "I 40" "I 1" "I 30"] o
  have e: "specify_edges binary64 tutorial_net_params = Inr (ring_edges binary64 (I 40) (I 1) (I 30))"
    by (simp only: tutorial_params simp_thms)
  from a b c d e o show ?thesis
    by (simp only: missing_params tutorial_params simp_thms)
qed

section \<open>Exact arithmetic\<close>

lemma val_to_float_exact [simp]: "to_float exact a = val a"
  by (cases a) (simp_all add: exact_def)

lemma val_mul_exact: "val (mul exact a b) = val a * val b"
  by (cases a; cases b) (simp_all add: exact_def)

lemma val_div2_exact: "val (div2 exact a) = val a / 2"
  by (simp add: div2_def exact_def)

lemma val_npi_exact: "val (npi exact) = pi"
  by (simp add: npi_def exact_def)

lemma val_neg: "val (neg a) = - val a"
  by (cases a) simp_all



section \<open>Lengths and offsets of the ring\<close>


lemma fmod_zeroI: "x = m \<Longrightarrow> 0 < m \<Longrightarrow> fmod x m = 0"
  by (simp add: fmod_def)

lemma edge_length_ring:
  "edge_length (ring_edges rnd r l s) ''edge0'' = Some (val (edgelen rnd r))"
  "edge_length (ring_edges rnd r l s) ''edge1'' = Some (val (edgelen rnd r))"
  "edge_length (ring_edges rnd r l s) ''edge2'' = Some (val (edgelen rnd r))"
  "edge_length (ring_edges rnd r l s) ''edge3'' = Some (val (edgelen rnd r))"
  by (simp_all add: edge_length_def by_id_def ring_edges_def str_attr_def num_attr_def)


lemma offset_of_ring:
  "offset_of (edgestarts rnd r) ''edge0'' = Some 0"
  "offset_of (edgestarts rnd r) ''edge1''
     = Some (val (mul rnd (div2 rnd (mul rnd r (I 1))) (npi rnd)))"
  "offset_of (edgestarts rnd r) ''edge2'' = Some (val (mul rnd r (npi rnd)))"
  "offset_of (edgestarts rnd r) ''edge3''
     = Some (val (mul rnd (div2 rnd (mul rnd r (I 3))) (npi rnd)))"
  by (simp_all add: offset_of_def edgestarts_def)

lemma offset_of_ring_exact:
  "offset_of (edgestarts exact r) ''edge0'' = Some 0"
  "offset_of (edgestarts exact r) ''edge1'' = Some (val r * pi / 2)"
  "offset_of (edgestarts exact r) ''edge2'' = Some (val r * pi)"
  "offset_of (edgestarts exact r) ''edge3'' = Some (3 * val r * pi / 2)"
  by (simp_all add: offset_of_ring val_mul_exact val_div2_exact val_npi_exact)

lemma total_length_ring:
  assumes "(k, route) \<in> set (specify_routes p)"
  shows "total_length rnd (ring_edges rnd r l s) route
           = Some (rnd (rnd (rnd (rnd (0 + val (edgelen rnd r)) + val (edgelen rnd r))
                         + val (edgelen rnd r)) + val (edgelen rnd r)))"
  using assms
  by (auto simp: specify_routes_def total_length_def edge_length_ring)


lemma specify_edge_starts_InrD:
  assumes "specify_edge_starts rnd p = Inr starts" and "additional_params p ''radius'' = Some r"
  shows "starts = edgestarts rnd r"
  using assms by (simp add: specify_edge_starts_cases split: if_splits)

lemma specify_edges_radiusD:
  assumes "specify_edges rnd p = Inr edges" and "additional_params p ''radius'' = Some r"
  obtains l s where "edges = ring_edges rnd r l s"
  using assms by (auto elim!: specify_edges_InrD)

section \<open>Shape strings\<close>

lemma split_no_sep: "c \<notin> set s \<Longrightarrow> split c s = [s]"
  by (induction s) auto

lemma split_append: "c \<notin> set a \<Longrightarrow> split c (a @ c # b) = a # split c b"
  by (induction a) auto

lemma split_join:
  assumes "xs \<noteq> []" and "\<forall>x \<in> set xs. c \<notin> set x"
  shows "split c (join [c] xs) = xs"
  using assms
proof (induction "[c]" xs rule: join.induct)
  case 1
  then show ?case by simp
next
  case (2 x)
  then show ?case by (simp add: split_no_sep)
next
  case (3 x y ys)
  then show ?case by (simp add: split_append)
qed

lemma is_digit_digit: "d < 10 \<Longrightarrow> is_digit (digit d)"
  unfolding is_digit_def digit_def by (rule nth_mem) simp

lemma not_digit [simp]:
  "\<not> is_digit CHR ''.''" "\<not> is_digit CHR ''-''" "\<not> is_digit CHR '',''" "\<not> is_digit CHR '' ''"
  by (simp_all add: is_digit_def)

lemma str_nat_digits: "str_nat n \<noteq> [] \<and> list_all is_digit (str_nat n)"
proof (induction n rule: str_nat.induct)
  case (1 n)
  show ?case
  proof (cases "n < 10")
    case True
    then show ?thesis
      by (subst (1 2) str_nat.simps) (simp add: is_digit_digit)
  next
    case False
    with 1 show ?thesis
      by (subst (1 2) str_nat.simps) (simp add: is_digit_digit)
  qed
qed

lemma takeWhile_digits:
  assumes "list_all is_digit ds" and "\<not> is_digit p"
  shows "takeWhile is_digit (ds @ p # rest) = ds" and "dropWhile is_digit (ds @ p # rest) = p # rest"
  using assms by (induction ds) auto

lemma two_decimals_fmt2: "two_decimals (fmt2 x)"
proof -
  define h where "h = hundredths x"
  define body where "body = str_nat (h div 100) @ CHR ''.'' # [digit (h mod 100 div 10), digit (h mod 10)]"
  have ds: "str_nat (h div 100) \<noteq> []" "list_all is_digit (str_nat (h div 100))"
    using str_nat_digits by blast+
  have tk: "takeWhile is_digit body = str_nat (h div 100)"
    and dr: "dropWhile is_digit body = [CHR ''.'', digit (h mod 100 div 10), digit (h mod 10)]"
    unfolding body_def using ds(2) by (simp_all add: takeWhile_digits)
  have d2: "is_digit (digit (h mod 100 div 10))" "is_digit (digit (h mod 10))"
    by (rule is_digit_digit, simp)+
  obtain ch t where b: "body = ch # t" and chd: "is_digit ch"
    using ds unfolding body_def by (cases "str_nat (h div 100)") auto
  have good: "takeWhile is_digit body \<noteq> [] \<and>
     (case dropWhile is_digit body of
        [p, a, b] \<Rightarrow> p = CHR ''.'' \<and> is_digit a \<and> is_digit b
      | _ \<Rightarrow> False)"
    unfolding tk dr using ds(1) d2 by simp
  have f: "fmt2 x = (if x < 0 then ''-'' else []) @ body"
    by (simp add: fmt2_def h_def body_def Let_def)
  show ?thesis
  proof (cases "x < 0")
    case True
    with f have "fmt2 x = CHR ''-'' # body" by simp
    with good show ?thesis by (simp add: two_decimals_def)
  next
    case False
    with f have "fmt2 x = body" by simp
    moreover from chd have "ch \<noteq> CHR ''-''" by auto
    ultimately show ?thesis
      using good b by (simp add: two_decimals_def)
  qed
qed

lemma fmt2_chars: "set (fmt2 x) \<subseteq> {ch. is_digit ch} \<union> {CHR ''.'', CHR ''-''}"
proof -
  have "set (str_nat n) \<subseteq> {ch. is_digit ch}" for n
    using str_nat_digits [of n] by (auto simp: list_all_iff)
  moreover have "is_digit (digit (hundredths x mod 100 div 10))" "is_digit (digit (hundredths x mod 10))"
    by (rule is_digit_digit, simp)+
  ultimately show ?thesis
    by (auto simp: fmt2_def Let_def)
qed

lemma fmt2_no_sep: "CHR '','' \<notin> set (fmt2 x)" "CHR '' '' \<notin> set (fmt2 x)"
  using fmt2_chars [of x] by auto

lemma is_pair_fmt2: "is_pair (fmt2 x @ CHR '','' # fmt2 y)"
  by (simp add: is_pair_def split_append split_no_sep fmt2_no_sep two_decimals_fmt2)

lemma length_linspace: "length (linspace rnd a b n) = n"
  by (simp add: linspace_def Let_def)

lemma well_formed_arc_shape:
  "well_formed_shape (arc_shape rnd r a b)" "length (split CHR '' '' (arc_shape rnd r a b)) = 40"
proof -
  define xs where "xs = map (\<lambda>(x, y). fmt2 x @ '','' @ fmt2 y) (arc_points rnd r a b)"
  have len: "length xs = 40"
    by (simp add: xs_def arc_points_def length_linspace)
  then have ne: "xs \<noteq> []" by auto
  have sp: "\<forall>s \<in> set xs. CHR '' '' \<notin> set s"
    by (auto simp: xs_def fmt2_no_sep)
  have pr: "list_all is_pair xs"
    by (auto simp: xs_def list_all_iff is_pair_fmt2)
  have "split CHR '' '' (arc_shape rnd r a b) = xs"
    unfolding arc_shape_def xs_def [symmetric] using ne sp by (rule split_join)
  with pr len show "well_formed_shape (arc_shape rnd r a b)"
    "length (split CHR '' '' (arc_shape rnd r a b)) = 40"
    by (simp_all add: well_formed_shape_def)
qed

text \<open>
  C7. Every shape string in the edge descriptors returned by \<^verbatim>\<open>specify_edges\<close> is a
  space-separated sequence of \<^verbatim>\<open>"x,y"\<close> pairs, forty of them, in which each coordinate
  is written with exactly two decimals.
\<close>

theorem shape_strings_two_decimals:
  assumes "specify_edges rnd p = Inr edges"
  shows "\<forall>e \<in> set edges. \<exists>s. map_of e ''shape'' = Some (Str s)
           \<and> well_formed_shape s \<and> length (split CHR '' '' s) = 40"
proof -
  from assms obtain r l sp where e: "edges = ring_edges rnd r l sp"
    by (rule specify_edges_InrD)
  show ?thesis
    unfolding e by (simp add: ring_edges_def well_formed_arc_shape)
qed

theorem shape_strings_two_decimals_witness:
  "specify_edges binary64 tutorial_net_params = Inr (ring_edges binary64 (I 40) (I 1) (I 30))
   \<and> map_of (ring_edges binary64 (I 40) (I 1) (I 30) ! 0) ''shape''
       = Some (Str (arc_shape binary64 (I 40) (val (div2 binary64 (neg (npi binary64)))) 0))
   \<and> well_formed_shape (arc_shape binary64 (I 40) (val (div2 binary64 (neg (npi binary64)))) 0)"
proof -
  have n: "ring_edges binary64 (I 40) (I 1) (I 30) ! 0
             \<in> set (ring_edges binary64 (I 40) (I 1) (I 30))"
    by (rule nth_mem) (simp add: ring_edges_def)
  have s: "map_of (ring_edges binary64 (I 40) (I 1) (I 30) ! 0) ''shape''
       = Some (Str (arc_shape binary64 (I 40) (val (div2 binary64 (neg (npi binary64)))) 0))"
    by (simp add: ring_edges_def)
  from shape_strings_two_decimals [OF tutorial_edges, of binary64] n
  obtain t where "map_of (ring_edges binary64 (I 40) (I 1) (I 30) ! 0) ''shape'' = Some (Str t)"
    and "well_formed_shape t"
    by blast
  with s tutorial_edges [of binary64] show ?thesis by simp
qed

section \<open>Rounding to a float\<close>

lemma round_half_even_error: "\<bar>of_int (round_half_even x) - x\<bar> \<le> 1 / 2"
proof -
  define f where "f = \<lfloor>x\<rfloor>"
  define d where "d = x - of_int f"
  have d: "0 \<le> d" "d < 1"
    unfolding d_def f_def by linarith+
  have x: "x = of_int f + d"
    by (simp add: d_def)
  have r: "round_half_even x =
      (if d < 1 / 2 then f else if 1 / 2 < d then f + 1 else if even f then f else f + 1)"
    by (simp add: round_half_even_def Let_def f_def d_def)
  consider "d < 1 / 2" | "1 / 2 < d" | "d = 1 / 2" by linarith
  then show ?thesis
  proof cases
    case 1
    with r have "of_int (round_half_even x) - x = - d" by (simp add: x)
    with d 1 show ?thesis by simp
  next
    case 2
    with r have "of_int (round_half_even x) - x = 1 - d" by (simp add: x)
    with d 2 show ?thesis by simp
  next
    case 3
    with r have "round_half_even x = f \<or> round_half_even x = f + 1"
      by (cases "even f") simp_all
    then have "of_int (round_half_even x) - x = - d \<or> of_int (round_half_even x) - x = 1 - d"
      unfolding d_def by auto
    with 3 show ?thesis by auto
  qed
qed

lemma round_half_even_int [simp]: "round_half_even (of_int k) = k"
  by (simp add: round_half_even_def)

lemma round_half_even_0 [simp]: "round_half_even 0 = 0"
  using round_half_even_int [of 0] by simp

lemma round_half_even_near:
  assumes "\<bar>x - of_int k\<bar> < 1 / 2"
  shows "round_half_even x = k"
proof -
  from round_half_even_error [of x] assms
  have "\<bar>real_of_int (round_half_even x) - of_int k\<bar> < 1"
    by linarith
  then have "\<bar>round_half_even x - k\<bar> < 1"
    by (metis of_int_diff of_int_abs of_int_less_1_iff)
  then show ?thesis by linarith
qed

lemma round_half_even_minus: "round_half_even (- x) = - round_half_even x"
proof (cases "x \<in> \<int>")
  case True
  then obtain k where "x = of_int k" by (auto elim: Ints_cases)
  then have "round_half_even (- x) = round_half_even (of_int (- k))"
    by simp
  also have "\<dots> = - k" by (rule round_half_even_int)
  finally show ?thesis using \<open>x = of_int k\<close> by simp
next
  case False
  define f where "f = \<lfloor>x\<rfloor>"
  define d where "d = x - of_int f"
  from False have "x \<noteq> of_int \<lfloor>x\<rfloor>"
    by (metis Ints_of_int)
  then have fl: "\<lfloor>- x\<rfloor> = - f - 1"
    unfolding f_def by (simp add: floor_minus ceiling_altdef)
  have d: "0 \<le> d" "d < 1"
    unfolding d_def f_def by linarith+
  have r: "round_half_even x =
      (if d < 1 / 2 then f else if 1 / 2 < d then f + 1 else if even f then f else f + 1)"
    by (simp add: round_half_even_def Let_def f_def d_def)
  have d': "- x - of_int (- f - 1) = 1 - d"
    by (simp add: d_def)
  have r': "round_half_even (- x) =
      (if 1 - d < 1 / 2 then - f - 1 else if 1 / 2 < 1 - d then - f
       else if even (- f - 1) then - f - 1 else - f)"
    unfolding round_half_even_def Let_def fl d' by simp
  consider "d < 1 / 2" | "1 / 2 < d" | "d = 1 / 2" by linarith
  then show ?thesis
  proof cases
    case 1
    then show ?thesis unfolding r r' by simp
  next
    case 2
    then show ?thesis unfolding r r' by simp
  next
    case 3
    then show ?thesis unfolding r r' by (cases "even f") simp_all
  qed
qed

lemma binary64_minus: "binary64 (- x) = - binary64 x"
  by (simp add: binary64_def Let_def round_half_even_minus)

lemma floor_log2_eq:
  assumes "0 < x" and "2 powi k \<le> x" and "x < 2 powi (k + 1)"
  shows "\<lfloor>log 2 x\<rfloor> = k"
proof -
  have "(2::real) powr real_of_int k = 2 powi k"
    by (simp add: powr_real_of_int')
  moreover have "(2::real) powr (real_of_int k + 1) = 2 powi (k + 1)"
    using powr_real_of_int' [of 2 "k + 1"] by simp
  ultimately show ?thesis
    using assms by (subst floor_log_eq_powr_iff) simp_all
qed

lemma floor_log2_bounds:
  assumes "0 < x"
  shows "2 powi \<lfloor>log 2 x\<rfloor> \<le> x" and "x < 2 powi (\<lfloor>log 2 x\<rfloor> + 1)"
proof -
  define k where "k = \<lfloor>log 2 x\<rfloor>"
  have "2 powr real_of_int k \<le> x \<and> x < 2 powr (real_of_int k + 1)"
    using floor_log_eq_powr_iff [of x 2 k] assms by (simp add: k_def)
  moreover have "(2::real) powr real_of_int k = 2 powi k"
    by (simp add: powr_real_of_int')
  moreover have "(2::real) powr (real_of_int k + 1) = 2 powi (k + 1)"
    using powr_real_of_int' [of 2 "k + 1"] by simp
  ultimately show "2 powi \<lfloor>log 2 x\<rfloor> \<le> x" and "x < 2 powi (\<lfloor>log 2 x\<rfloor> + 1)"
    by (simp_all add: k_def)
qed

lemma floor_log2_ge:
  assumes "2 powi m \<le> x"
  shows "m \<le> \<lfloor>log 2 x\<rfloor>"
proof (rule ccontr)
  assume "\<not> m \<le> \<lfloor>log 2 x\<rfloor>"
  then have "\<lfloor>log 2 x\<rfloor> + 1 \<le> m" by simp
  then have "(2::real) powi (\<lfloor>log 2 x\<rfloor> + 1) \<le> 2 powi m"
    by (intro power_int_increasing) simp_all
  moreover have "0 < x"
    using assms zero_less_power_int [of "2::real" m] by linarith
  ultimately show False
    using floor_log2_bounds(2) [of x] assms by linarith
qed

lemma floor_log2_less:
  assumes "0 < x" and "x < 2 powi m"
  shows "\<lfloor>log 2 x\<rfloor> < m"
proof (rule ccontr)
  assume "\<not> \<lfloor>log 2 x\<rfloor> < m"
  then have "(2::real) powi m \<le> 2 powi \<lfloor>log 2 x\<rfloor>"
    by (intro power_int_increasing) simp_all
  with floor_log2_bounds(1) [OF assms(1)] assms(2) show False
    by linarith
qed

text \<open>Rounding at a known exponent.\<close>

lemma binary64_at:
  assumes "2 ^ 52 \<le> \<bar>x\<bar> / 2 powi e" and "\<bar>x\<bar> / 2 powi e < 2 ^ 53" and "- 1074 \<le> e"
  shows "binary64 x = of_int (round_half_even (x / 2 powi e)) * 2 powi e"
proof -
  have p: "(0::real) < 2 powi e" by simp
  from assms(1) p have nz: "x \<noteq> 0" by auto
  have "(2::real) powi (e + 52) = 2 powi e * 2 ^ 52" "(2::real) powi (e + 52 + 1) = 2 powi e * 2 ^ 53"
    by (simp_all add: power_int_add)
  with assms(1,2) p have "2 powi (e + 52) \<le> \<bar>x\<bar>" "\<bar>x\<bar> < 2 powi (e + 52 + 1)"
    by (simp_all add: field_simps)
  with nz have "\<lfloor>log 2 \<bar>x\<bar>\<rfloor> = e + 52"
    by (intro floor_log2_eq) simp_all
  with nz assms(3) show ?thesis
    by (simp add: binary64_def Let_def max_def)
qed

text \<open>Rounding below the normal range.\<close>

lemma binary64_subnormal:
  assumes "\<bar>x\<bar> < 2 powi (- 1022)"
  shows "binary64 x = of_int (round_half_even (x / 2 powi (- 1074))) * 2 powi (- 1074)"
proof (cases "x = 0")
  case True
  then show ?thesis by (simp add: binary64_def)
next
  case False
  then have pos: "0 < \<bar>x\<bar>" by simp
  from pos assms have "\<lfloor>log 2 \<bar>x\<bar>\<rfloor> < - 1022"
    by (rule floor_log2_less)
  then have "\<lfloor>log 2 \<bar>x\<bar>\<rfloor> - 52 \<le> - 1074"
    by linarith
  then have "max (\<lfloor>log 2 \<bar>x\<bar>\<rfloor> - 52) (- 1074) = - 1074"
    by (rule max_absorb2)
  with False show ?thesis
    unfolding binary64_def Let_def by (simp only: if_False)
qed

text \<open>The relative error in the normal range.\<close>

lemma binary64_error:
  assumes "2 powi (- 1022) \<le> \<bar>x\<bar>"
  shows "\<bar>binary64 x - x\<bar> \<le> \<bar>x\<bar> / 2 ^ 53"
proof -
  have "(0::real) < 2 powi (- 1022)"
    by (rule zero_less_power_int) simp
  with assms have pos: "0 < \<bar>x\<bar>" by linarith
  then have nz: "x \<noteq> 0" by auto
  define k where "k = \<lfloor>log 2 \<bar>x\<bar>\<rfloor>"
  define e where "e = k - 52"
  have lo: "2 powi k \<le> \<bar>x\<bar>"
    unfolding k_def using pos by (rule floor_log2_bounds)
  from assms have "- 1022 \<le> k"
    unfolding k_def by (rule floor_log2_ge)
  then have ee: "max (k - 52) (- 1074) = e"
    by (simp add: e_def)
  have b: "binary64 x = of_int (round_half_even (x / 2 powi e)) * 2 powi e"
    using nz ee by (simp add: binary64_def Let_def k_def)
  have p: "(0::real) < 2 powi e" by simp
  have "\<bar>binary64 x - x\<bar> = \<bar>of_int (round_half_even (x / 2 powi e)) - x / 2 powi e\<bar> * 2 powi e"
  proof -
    have "binary64 x - x = (of_int (round_half_even (x / 2 powi e)) - x / 2 powi e) * 2 powi e"
      using p by (simp add: b field_simps)
    then show ?thesis
      using p by (simp add: abs_mult)
  qed
  also have "\<dots> \<le> 1 / 2 * 2 powi e"
    using round_half_even_error [of "x / 2 powi e"] p by (intro mult_right_mono) simp_all
  also have "\<dots> = 2 powi k / 2 ^ 53"
    by (simp add: e_def power_int_diff)
  also have "\<dots> \<le> \<bar>x\<bar> / 2 ^ 53"
    using lo by (simp add: divide_right_mono)
  finally show ?thesis .
qed

lemma binary64_40: "binary64 40 = 40"
proof -
  have "binary64 40 = of_int (round_half_even (40 / 2 powi (- 47))) * 2 powi (- 47)"
    by (rule binary64_at) simp_all
  also have "(40::real) / 2 powi (- 47) = of_int (40 * 2 ^ 47)"
    by (simp add: power_int_minus)
  finally show ?thesis
    by (simp only: round_half_even_int) (simp add: power_int_minus)
qed

section \<open>Bounds on pi\<close>

lemma arctan_between:
  fixes x :: real
  assumes "0 < x" and "x \<le> 1"
  shows "(\<Sum>i<2 * n. (- 1) ^ i * (1 / real (i * 2 + 1) * x ^ (i * 2 + 1))) \<le> arctan x"
    and "arctan x \<le> (\<Sum>i<2 * n + 1. (- 1) ^ i * (1 / real (i * 2 + 1) * x ^ (i * 2 + 1)))"
proof -
  from assms have ax: "\<bar>x\<bar> \<le> 1" by simp
  have pos: "0 < 1 / real (0 * 2 + 1) * x ^ (0 * 2 + 1)"
    using assms by simp
  from summable_Leibniz(2) [OF zeroseq_arctan_series [OF ax] monoseq_arctan_series [OF ax]] pos
  have "(\<Sum>i. (- 1) ^ i * (1 / real (i * 2 + 1) * x ^ (i * 2 + 1)))
          \<in> {\<Sum>i<2 * n. (- 1) ^ i * (1 / real (i * 2 + 1) * x ^ (i * 2 + 1)) ..
             \<Sum>i<2 * n + 1. (- 1) ^ i * (1 / real (i * 2 + 1) * x ^ (i * 2 + 1))}"
    by blast
  then show "(\<Sum>i<2 * n. (- 1) ^ i * (1 / real (i * 2 + 1) * x ^ (i * 2 + 1))) \<le> arctan x"
    and "arctan x \<le> (\<Sum>i<2 * n + 1. (- 1) ^ i * (1 / real (i * 2 + 1) * x ^ (i * 2 + 1)))"
    by (simp_all add: arctan_series [OF ax])
qed

lemma pi_20_digits:
  "314159265358979323846 / 10 ^ 20 < pi" "pi < 314159265358979323847 / 10 ^ 20"
proof -
  have m: "pi = 16 * arctan (1 / 5) - 4 * arctan (1 / 239)"
    using machin by simp
  have l5: "(\<Sum>i<16. (- 1) ^ i * (1 / real (i * 2 + 1) * (1 / 5) ^ (i * 2 + 1))) \<le> arctan (1 / 5)"
    using arctan_between(1) [of "1 / 5" 8] by simp
  have u5: "arctan (1 / 5) \<le> (\<Sum>i<17. (- 1) ^ i * (1 / real (i * 2 + 1) * (1 / 5) ^ (i * 2 + 1)))"
    using arctan_between(2) [of "1 / 5" 8] by simp
  have l239: "(\<Sum>i<4. (- 1) ^ i * (1 / real (i * 2 + 1) * (1 / 239) ^ (i * 2 + 1))) \<le> arctan (1 / 239)"
    using arctan_between(1) [of "1 / 239" 2] by simp
  have u239: "arctan (1 / 239) \<le> (\<Sum>i<5. (- 1) ^ i * (1 / real (i * 2 + 1) * (1 / 239) ^ (i * 2 + 1)))"
    using arctan_between(2) [of "1 / 239" 2] by simp
  have a: "314159265358979323846 / 10 ^ 20
      < 16 * (\<Sum>i<16. (- 1) ^ i * (1 / real (i * 2 + 1) * (1 / 5) ^ (i * 2 + 1)))
        - 4 * (\<Sum>i<5. (- 1) ^ i * (1 / real (i * 2 + 1) * (1 / 239) ^ (i * 2 + 1)))"
    by (simp add: eval_nat_numeral)
  have b: "16 * (\<Sum>i<17. (- 1) ^ i * (1 / real (i * 2 + 1) * (1 / 5) ^ (i * 2 + 1)))
        - 4 * (\<Sum>i<4. (- 1) ^ i * (1 / real (i * 2 + 1) * (1 / 239) ^ (i * 2 + 1)))
      < 314159265358979323847 / 10 ^ 20"
    by (simp add: eval_nat_numeral)
  from a l5 u239 show "314159265358979323846 / 10 ^ 20 < pi" unfolding m by linarith
  from b u5 l239 show "pi < 314159265358979323847 / 10 ^ 20" unfolding m by linarith
qed

lemma binary64_0 [simp]: "binary64 0 = 0"
  by (simp add: binary64_def)

text \<open>The error of a rounding anywhere below the overflow threshold.\<close>

lemma binary64_error_abs: "\<bar>binary64 x - x\<bar> \<le> \<bar>x\<bar> / 2 ^ 53 + 1 / 2 ^ 1075"
proof (cases "2 powi (- 1022) \<le> \<bar>x\<bar>")
  case True
  from binary64_error [OF True] show ?thesis
    by (rule order_trans) simp
next
  case False
  then have s: "\<bar>x\<bar> < 2 powi (- 1022)" by simp
  define P :: real where "P = 2 ^ 1074"
  have P: "0 < P" by (simp add: P_def)
  have i: "2 powi (- 1074) = 1 / P"
    unfolding P_def by (simp only: power_int_minus power_int_numeral inverse_eq_divide)
  define m where "m = x * P"
  have d: "x / 2 powi (- 1074) = m"
    unfolding i m_def by simp
  have "binary64 x = of_int (round_half_even m) * 2 powi (- 1074)"
    unfolding binary64_subnormal [OF s] d ..
  then have b: "binary64 x = of_int (round_half_even m) / P"
    unfolding i by simp
  have "binary64 x - x = (of_int (round_half_even m) - m) / P"
    using P by (simp add: b m_def field_simps)
  then have "\<bar>binary64 x - x\<bar> = \<bar>of_int (round_half_even m) - m\<bar> / P"
    using P by (simp add: abs_divide)
  also have "\<dots> \<le> (1 / 2) / P"
    using round_half_even_error [of m] P by (intro divide_right_mono) simp_all
  also have "\<dots> = 1 / 2 ^ 1075"
    unfolding P_def by (simp only: power_Suc [symmetric] divide_divide_eq_left) simp
  finally have "\<bar>binary64 x - x\<bar> \<le> 1 / 2 ^ 1075" .
  moreover have "0 \<le> \<bar>x\<bar> / 2 ^ 53" by simp
  ultimately show ?thesis by linarith
qed

text \<open>The float nearest to a number that lies between \<open>2 ^ 52 / 2 ^ n\<close> and \<open>2 ^ 53 / 2 ^ n\<close>.\<close>

lemma binary64_eqI:
  assumes "n \<le> 1074"
    and "2 ^ 52 \<le> \<bar>x\<bar> * 2 ^ n" and "\<bar>x\<bar> * 2 ^ n < 2 ^ 53"
    and "\<bar>x * 2 ^ n - of_int k\<bar> < 1 / 2"
  shows "binary64 x = of_int k / 2 ^ n"
proof -
  have d: "y / 2 powi (- int n) = y * 2 ^ n" for y :: real
    by (simp add: power_int_minus field_simps)
  have "binary64 x = of_int (round_half_even (x / 2 powi (- int n))) * 2 powi (- int n)"
    using assms(1-3) by (intro binary64_at) (simp_all add: d)
  also have "round_half_even (x / 2 powi (- int n)) = k"
    unfolding d using assms(4) by (rule round_half_even_near)
  finally show ?thesis
    by (simp add: power_int_minus field_simps)
qed

lemma binary64_1 [simp]: "binary64 1 = 1"
  using binary64_eqI [of 52 1 "2 ^ 52"] by simp

lemma binary64_3 [simp]: "binary64 3 = 3"
  using binary64_eqI [of 51 3 "3 * 2 ^ 51"] by simp

text \<open>\<^verbatim>\<open>numpy.pi\<close>, the float nearest to \<open>pi\<close>, is \<open>884279719003555 / 2 ^ 48\<close>.\<close>

lemma binary64_pi: "binary64 pi = 884279719003555 / 2 ^ 48"
proof -
  have p: "(2::real) ^ 51 = 2251799813685248" "(2::real) ^ 52 = 4503599627370496"
    "(2::real) ^ 53 = 9007199254740992"
    by simp_all
  have "binary64 pi = of_int 7074237752028440 / 2 ^ 51"
  proof (rule binary64_eqI)
    show "(51::nat) \<le> 1074" by simp
    show "2 ^ 52 \<le> \<bar>pi\<bar> * 2 ^ 51"
      unfolding p using pi_20_digits by simp
    show "\<bar>pi\<bar> * 2 ^ 51 < 2 ^ 53"
      unfolding p using pi_20_digits by simp
    show "\<bar>pi * 2 ^ 51 - of_int 7074237752028440\<bar> < 1 / 2"
      unfolding p using pi_20_digits by simp
  qed
  then show ?thesis by simp
qed

lemma val_npi_binary64: "val (npi binary64) = 884279719003555 / 2 ^ 48"
  by (simp add: npi_def binary64_pi)

text \<open>The gap between \<open>pi\<close> and \<^verbatim>\<open>numpy.pi\<close>, about \<open>1.2246e-16\<close>.\<close>

lemma numpy_pi_digits:
  "314159265358979311599 / 10 ^ 20 < (884279719003555::real) / 2 ^ 48"
  "(884279719003555::real) / 2 ^ 48 < 314159265358979311601 / 10 ^ 20"
  by simp_all

lemma pi_gap:
  "12245 / 10 ^ 20 < pi - 884279719003555 / 2 ^ 48"
  "pi - 884279719003555 / 2 ^ 48 < 12248 / 10 ^ 20"
  using pi_20_digits numpy_pi_digits by linarith+

section \<open>Accumulated rounding errors\<close>

lemma roundings_ge_1: "(1::real) \<le> (1 + 1 / 2 ^ 53) ^ k"
  by (rule one_le_power) simp

lemma roundings_le_8:
  assumes "k \<le> 8"
  shows "(1 + 1 / 2 ^ 53) ^ k \<le> (1::real) + 1 / 2 ^ 49"
proof -
  have "(1 + 1 / 2 ^ 53) ^ k \<le> (1 + 1 / 2 ^ 53 :: real) ^ 8"
    using assms by (intro power_increasing) simp_all
  also have "\<dots> \<le> 1 + 1 / 2 ^ 49"
    by (simp add: eval_nat_numeral)
  finally show ?thesis .
qed

lemma within_roundingsI:
  "\<bar>x - X\<bar> \<le> ((1 + 1 / 2 ^ 53) ^ k - 1) * X \<Longrightarrow> within_roundings k x X"
  by (simp add: within_roundings_def)

lemma within_roundingsD:
  "within_roundings k x X \<Longrightarrow> \<bar>x - X\<bar> \<le> ((1 + 1 / 2 ^ 53) ^ k - 1) * X"
  by (simp add: within_roundings_def)

lemma within_roundings_refl: "0 \<le> X \<Longrightarrow> within_roundings k X X"
  using roundings_ge_1 [of k] by (simp add: within_roundings_def)

lemma within_roundings_mono:
  assumes "within_roundings k x X" and "k \<le> m" and "0 \<le> X"
  shows "within_roundings m x X"
proof -
  have "(1 + 1 / 2 ^ 53 :: real) ^ k \<le> (1 + 1 / 2 ^ 53) ^ m"
    using assms(2) by (intro power_increasing) simp_all
  then have "((1 + 1 / 2 ^ 53) ^ k - 1) * X \<le> ((1 + 1 / 2 ^ 53) ^ m - 1) * X"
    using assms(3) by (intro mult_right_mono) simp_all
  with within_roundingsD [OF assms(1)] show ?thesis
    by (intro within_roundingsI) linarith
qed

lemma within_roundings_scale:
  assumes "within_roundings k x X" and "0 \<le> c"
  shows "within_roundings k (c * x) (c * X)"
proof -
  have "\<bar>c * x - c * X\<bar> = c * \<bar>x - X\<bar>"
    using assms(2) by (simp add: abs_mult flip: right_diff_distrib)
  also have "\<dots> \<le> c * (((1 + 1 / 2 ^ 53) ^ k - 1) * X)"
    using within_roundingsD [OF assms(1)] assms(2) by (rule mult_left_mono)
  finally show ?thesis
    by (intro within_roundingsI) (simp add: mult.left_commute)
qed

lemma within_roundings_half:
  assumes "within_roundings k x X"
  shows "within_roundings k (x / 2) (X / 2)"
  using within_roundings_scale [OF assms, of "1 / 2"] by simp

lemma within_roundings_add:
  assumes "within_roundings k x X" and "within_roundings k y Y"
  shows "within_roundings k (x + y) (X + Y)"
proof -
  have "\<bar>(x + y) - (X + Y)\<bar> \<le> \<bar>x - X\<bar> + \<bar>y - Y\<bar>"
    by linarith
  also have "\<dots> \<le> ((1 + 1 / 2 ^ 53) ^ k - 1) * X + ((1 + 1 / 2 ^ 53) ^ k - 1) * Y"
    using within_roundingsD [OF assms(1)] within_roundingsD [OF assms(2)] by linarith
  finally show ?thesis
    by (intro within_roundingsI) (simp add: distrib_left)
qed

lemma within_roundings_mul:
  assumes "within_roundings a x X" and "within_roundings b y Y" and "0 \<le> X" and "0 \<le> Y"
  shows "within_roundings (a + b) (x * y) (X * Y)"
proof -
  define A :: real where "A = (1 + 1 / 2 ^ 53) ^ a"
  define B :: real where "B = (1 + 1 / 2 ^ 53) ^ b"
  have A: "1 \<le> A" and B: "1 \<le> B"
    unfolding A_def B_def by (rule roundings_ge_1)+
  have x: "\<bar>x - X\<bar> \<le> (A - 1) * X"
    unfolding A_def by (rule within_roundingsD [OF assms(1)])
  have y: "\<bar>y - Y\<bar> \<le> (B - 1) * Y"
    unfolding B_def by (rule within_roundingsD [OF assms(2)])
  have "(B - 1) * Y = B * Y - Y"
    by (simp add: algebra_simps)
  with y assms(4) have y': "\<bar>y\<bar> \<le> B * Y"
    by linarith
  have n: "0 \<le> (A - 1) * X"
    using A assms(3) by simp
  have "x * y - X * Y = (x - X) * y + X * (y - Y)"
    by (simp add: algebra_simps)
  then have "\<bar>x * y - X * Y\<bar> \<le> \<bar>x - X\<bar> * \<bar>y\<bar> + X * \<bar>y - Y\<bar>"
    using assms(3) by (simp add: abs_mult flip: abs_mult) (metis abs_mult abs_of_nonneg abs_triangle_ineq assms(3))
  also have "\<dots> \<le> ((A - 1) * X) * (B * Y) + X * ((B - 1) * Y)"
    using x y y' n assms(3) by (intro add_mono mult_mono mult_left_mono) simp_all
  also have "\<dots> = (A * B - 1) * (X * Y)"
    by (simp add: algebra_simps)
  finally show ?thesis
    by (intro within_roundingsI) (simp add: A_def B_def power_add)
qed

lemma within_roundings_binary64:
  assumes "within_roundings k x X" and "k \<le> 8" and "1 / 2 ^ 1021 \<le> X"
  shows "within_roundings (Suc k) (binary64 x) X"
proof -
  define A :: real where "A = (1 + 1 / 2 ^ 53) ^ k"
  define L :: real where "L = 1 / 2 ^ 1021"
  have L: "0 < L" "2 powi (- 1022) = L / 2"
    unfolding L_def by (simp_all only: power_int_minus power_int_numeral inverse_eq_divide
        zero_less_divide_1_iff zero_less_power zero_less_numeral divide_divide_eq_left
        power_Suc [symmetric] mult.commute [of _ 2]) simp_all
  from assms(3) have X: "L \<le> X" by (simp add: L_def)
  have A: "1 \<le> A" "A \<le> 1 + 1 / 2 ^ 49"
    unfolding A_def by (rule roundings_ge_1, rule roundings_le_8 [OF assms(2)])
  have x: "\<bar>x - X\<bar> \<le> (A - 1) * X"
    unfolding A_def by (rule within_roundingsD [OF assms(1)])
  have e: "(A - 1) * X = A * X - X"
    by (simp add: algebra_simps)
  have "(A - 1) * X \<le> (1 / 2 ^ 49) * X"
    using A X L by (intro mult_right_mono) simp_all
  also have "\<dots> \<le> X / 2"
    using X L by simp
  finally have "(A - 1) * X \<le> X / 2" .
  with x X L have lo: "L / 2 \<le> \<bar>x\<bar>"
    by linarith
  from x e X L have hi: "\<bar>x\<bar> \<le> A * X"
    by linarith
  have "\<bar>binary64 x - x\<bar> \<le> \<bar>x\<bar> / 2 ^ 53"
    using lo unfolding L(2) [symmetric] by (rule binary64_error)
  also have "\<dots> \<le> (A * X) / 2 ^ 53"
    using hi by (rule divide_right_mono) simp
  finally have "\<bar>binary64 x - X\<bar> \<le> (A * X) / 2 ^ 53 + (A - 1) * X"
    using x by linarith
  also have "\<dots> = (A * (1 + 1 / 2 ^ 53) - 1) * X"
    by (simp add: algebra_simps)
  finally show ?thesis
    by (intro within_roundingsI) (simp add: A_def mult.commute)
qed

lemma within_roundings_bound:
  assumes "within_roundings k x X" and "k \<le> 8" and "0 \<le> X"
  shows "\<bar>x - X\<bar> \<le> X / 2 ^ 49"
proof -
  have "((1 + 1 / 2 ^ 53) ^ k - 1) * X \<le> (1 / 2 ^ 49) * X"
    using roundings_le_8 [OF assms(2)] assms(3) by (intro mult_right_mono) simp_all
  with within_roundingsD [OF assms(1)] show ?thesis
    by simp
qed

section \<open>The accuracy of the lengths and offsets\<close>

lemma val_mul_float:
  "val (mul rnd a (F y)) = rnd (to_float rnd a * y)"
  "val (mul rnd (F x) b) = rnd (x * to_float rnd b)"
  by (cases a; simp) (cases b; simp)

lemma to_float_within:
  assumes "1 / 2 ^ 1021 \<le> val r"
  shows "within_roundings 1 (to_float binary64 r) (val r)"
proof -
  from assms have pos: "0 \<le> val r"
    by (rule order_trans [rotated]) simp
  show ?thesis
  proof (cases r)
    case (I n)
    have "within_roundings (Suc 0) (binary64 (of_int n)) (of_int n)"
      using assms pos unfolding I
      by (intro within_roundings_binary64 within_roundings_refl) simp_all
    then show ?thesis by (simp add: I)
  next
    case (F x)
    with pos show ?thesis by (simp add: within_roundings_refl)
  qed
qed

lemma npi_within: "within_roundings 1 (val (npi binary64)) pi"
proof -
  have "1 / 2 ^ 1021 \<le> (1::real)" by simp
  also have "\<dots> \<le> pi" using pi_ge_two by linarith
  finally have "within_roundings (Suc 0) (binary64 pi) pi"
    by (intro within_roundings_binary64 within_roundings_refl) simp_all
  then show ?thesis by (simp add: npi_def)
qed

text \<open>\<^verbatim>\<open>r * n\<close> for a small int \<open>n\<close>: exact on an int, rounded once on a float.\<close>

lemma mul_int_within:
  assumes "1 / 2 ^ 1021 \<le> val r" and "binary64 (of_int n) = of_int n" and "1 \<le> n"
  shows "within_roundings 1 (val (mul binary64 r (I n))) (val r * of_int n)"
proof -
  from assms(1) have pos: "0 \<le> val r"
    by (rule order_trans [rotated]) simp
  from assms(3) have n: "(1::real) \<le> of_int n" by simp
  from mult_left_mono [OF n pos] have "val r \<le> val r * of_int n"
    by simp
  with assms(1) pos have lo: "1 / 2 ^ 1021 \<le> val r * of_int n" "0 \<le> val r * of_int n"
    by linarith+
  show ?thesis
  proof (cases r)
    case (I m)
    with lo show ?thesis by (simp add: within_roundings_refl)
  next
    case (F x)
    have "within_roundings (Suc 0) (binary64 (x * of_int n)) (x * of_int n)"
      using lo unfolding F
      by (intro within_roundings_binary64 within_roundings_refl) simp_all
    then show ?thesis by (simp add: F assms(2))
  qed
qed


lemma within_mul:
  assumes "within_roundings a x X" and "within_roundings b y Y"
    and "a + b \<le> m" and "0 \<le> X" and "0 \<le> Y"
  shows "within_roundings m (x * y) (X * Y)"
  by (rule within_roundings_mono [OF within_roundings_mul [OF assms(1,2,4,5)] assms(3)])
    (simp add: assms)

lemma within_add:
  assumes "within_roundings a x X" and "within_roundings b y Y"
    and "a \<le> m" and "b \<le> m" and "0 \<le> X" and "0 \<le> Y"
  shows "within_roundings m (x + y) (X + Y)"
  by (intro within_roundings_add within_roundings_mono [OF assms(1,3,5)]
      within_roundings_mono [OF assms(2,4,6)])

lemma within_binary64:
  assumes "within_roundings k x X" and "k < m" and "m \<le> 9" and "1 / 2 ^ 1021 \<le> X"
  shows "within_roundings m (binary64 x) X"
proof -
  from assms(4) have pos: "0 \<le> X"
    by (rule order_trans [rotated]) simp
  from assms(2,3) have k: "k \<le> 8" "Suc k \<le> m" by simp_all
  from within_roundings_binary64 [OF assms(1) k(1) assms(4)] k(2) pos show ?thesis
    by (rule within_roundings_mono)
qed

lemma ring_within:
  assumes "1 / 2 ^ 1000 \<le> val r"
  shows "within_roundings 4 (val (edgelen binary64 r)) (val r * pi / 2)"
    and "within_roundings 4 (val (mul binary64 (div2 binary64 (mul binary64 r (I 1))) (npi binary64)))
           (val r * pi / 2)"
    and "within_roundings 3 (val (mul binary64 r (npi binary64))) (val r * pi)"
    and "within_roundings 4 (val (mul binary64 (div2 binary64 (mul binary64 r (I 3))) (npi binary64)))
           (3 * (val r * pi) / 2)"
proof -
  define c where "c = val r * pi"
  have "(1::real) / 2 ^ 1021 \<le> 1 / 2 ^ 1000" "(4::real) * (1 / 2 ^ 1021) \<le> 1 / 2 ^ 1000"
    by simp_all
  with assms have R: "1 / 2 ^ 1021 \<le> val r" "4 * (1 / 2 ^ 1021) \<le> val r"
    by linarith+
  then have pos: "0 \<le> val r"
    by (intro order_trans [OF _ R(1)]) simp
  from mult_left_mono [OF pi_ge_two pos] have c2: "2 * val r \<le> c"
    by (simp add: c_def mult.commute)
  with R pos have C: "1 / 2 ^ 1021 \<le> c" "1 / 2 ^ 1021 \<le> c / 2" "0 \<le> c"
    "1 / 2 ^ 1021 \<le> 3 * c / 2"
    by linarith+
  have p: "within_roundings 1 (binary64 pi) pi"
    using npi_within by (simp add: npi_def)
  note rr = to_float_within [OF R(1)]
  have "within_roundings 2 (to_float binary64 r * binary64 pi) c"
    unfolding c_def using rr p by (rule within_mul) (use pos in simp_all)
  then have o2: "within_roundings 3 (binary64 (to_float binary64 r * binary64 pi)) c"
    by (rule within_binary64) (use C in simp_all)
  then show "within_roundings 3 (val (mul binary64 r (npi binary64))) (val r * pi)"
    by (simp add: npi_def val_mul_float c_def)
  from within_roundings_half [OF o2]
  have "within_roundings 4 (binary64 (binary64 (to_float binary64 r * binary64 pi) / 2)) (c / 2)"
    by (rule within_binary64) (use C in simp_all)
  then show "within_roundings 4 (val (edgelen binary64 r)) (val r * pi / 2)"
    by (simp add: edgelen_def div2_def npi_def val_mul_float c_def)
  have h1: "within_roundings 1 (val (mul binary64 r (I 1))) (val r)"
    using mul_int_within [OF R(1), of 1] by simp
  from within_roundings_half [OF h1]
  have "within_roundings 2 (binary64 (val (mul binary64 r (I 1)) / 2)) (val r / 2)"
    by (rule within_binary64) (use R in simp_all)
  then have "within_roundings 3 (binary64 (val (mul binary64 r (I 1)) / 2) * binary64 pi)
               (val r / 2 * pi)"
    using p by (rule within_mul) (use pos in simp_all)
  then have "within_roundings 4
               (binary64 (binary64 (val (mul binary64 r (I 1)) / 2) * binary64 pi)) (c / 2)"
    by (intro within_binary64 [where k = 3]) (use C in \<open>simp_all add: c_def\<close>)
  then show "within_roundings 4
      (val (mul binary64 (div2 binary64 (mul binary64 r (I 1))) (npi binary64))) (val r * pi / 2)"
    by (simp add: div2_def npi_def c_def)
  have h3: "within_roundings 1 (val (mul binary64 r (I 3))) (val r * 3)"
    using mul_int_within [OF R(1), of 3] by simp
  from within_roundings_half [OF h3]
  have "within_roundings 2 (binary64 (val (mul binary64 r (I 3)) / 2)) (val r * 3 / 2)"
    by (rule within_binary64) (use R pos in simp_all)
  then have w3: "within_roundings 3 (binary64 (val (mul binary64 r (I 3)) / 2) * binary64 pi)
               (val r * 3 / 2 * pi)"
    using p by (rule within_mul) (use pos in simp_all)
  have e3: "val r * 3 / 2 * pi = 3 * c / 2"
    by (simp add: c_def)
  from w3 have "within_roundings 3 (binary64 (val (mul binary64 r (I 3)) / 2) * binary64 pi)
               (3 * c / 2)"
    unfolding e3 .
  then have "within_roundings 4
               (binary64 (binary64 (val (mul binary64 r (I 3)) / 2) * binary64 pi)) (3 * c / 2)"
    by (rule within_binary64) (use C in simp_all)
  then show "within_roundings 4
      (val (mul binary64 (div2 binary64 (mul binary64 r (I 3))) (npi binary64)))
      (3 * (val r * pi) / 2)"
    by (simp add: div2_def npi_def c_def)
qed

lemma total_within:
  assumes "within_roundings 4 l (c / 2)" and "1 / 2 ^ 1021 \<le> c / 2"
  shows "within_roundings 8 (binary64 (binary64 (binary64 (binary64 (0 + l) + l) + l) + l)) (2 * c)"
proof -
  from assms(2) have c: "0 \<le> c / 2" "0 \<le> c" "0 \<le> 3 * c / 2"
    "1 / 2 ^ 1021 \<le> c" "1 / 2 ^ 1021 \<le> 3 * c / 2" "1 / 2 ^ 1021 \<le> 2 * c"
  proof -
    have "(0::real) \<le> 1 / 2 ^ 1021" by simp
    with assms(2) show "0 \<le> c / 2" "0 \<le> c" "0 \<le> 3 * c / 2"
      "1 / 2 ^ 1021 \<le> c" "1 / 2 ^ 1021 \<le> 3 * c / 2" "1 / 2 ^ 1021 \<le> 2 * c"
      by linarith+
  qed
  from assms(1) have "within_roundings 4 (0 + l) (c / 2)"
    by simp
  then have t1: "within_roundings 5 (binary64 (0 + l)) (c / 2)"
    by (rule within_binary64) (use assms(2) in simp_all)
  have "within_roundings 5 (binary64 (0 + l) + l) (c / 2 + c / 2)"
    using t1 assms(1) by (rule within_add) (use c in simp_all)
  then have "within_roundings 5 (binary64 (0 + l) + l) c"
    by simp
  then have t2: "within_roundings 6 (binary64 (binary64 (0 + l) + l)) c"
    by (rule within_binary64) (use c in simp_all)
  have e3: "c + c / 2 = 3 * c / 2"
    by simp
  have "within_roundings 6 (binary64 (binary64 (0 + l) + l) + l) (c + c / 2)"
    using t2 assms(1) by (rule within_add) (use c in simp_all)
  then have "within_roundings 6 (binary64 (binary64 (0 + l) + l) + l) (3 * c / 2)"
    unfolding e3 .
  then have t3: "within_roundings 7 (binary64 (binary64 (binary64 (0 + l) + l) + l)) (3 * c / 2)"
    by (rule within_binary64) (use c in simp_all)
  have e4: "3 * c / 2 + c / 2 = 2 * c"
    by simp
  have "within_roundings 7 (binary64 (binary64 (binary64 (0 + l) + l) + l) + l) (3 * c / 2 + c / 2)"
    using t3 assms(1) by (rule within_add) (use c in simp_all)
  then have "within_roundings 7 (binary64 (binary64 (binary64 (0 + l) + l) + l) + l) (2 * c)"
    unfolding e4 .
  then show ?thesis
    by (rule within_binary64) (use c in simp_all)
qed

text \<open>
  The lengths and offsets of the ring in floats, against the number \<open>c = r * pi\<close>:
  the length \<open>l\<close>, the offsets \<open>o1\<close>, \<open>o2\<close>, \<open>o3\<close> and the total \<open>t\<close> are
  within \<open>1 / 2 ^ 49\<close> of \<open>c / 2\<close>, \<open>c / 2\<close>, \<open>c\<close>, \<open>3 * c / 2\<close> and \<open>2 * c\<close>,
  relatively.
\<close>

lemma ring_bounds:
  assumes "1 / 2 ^ 1000 \<le> val r"
  defines "c \<equiv> val r * pi"
  defines "l \<equiv> val (edgelen binary64 r)"
  defines "o1 \<equiv> val (mul binary64 (div2 binary64 (mul binary64 r (I 1))) (npi binary64))"
  defines "o2 \<equiv> val (mul binary64 r (npi binary64))"
  defines "o3 \<equiv> val (mul binary64 (div2 binary64 (mul binary64 r (I 3))) (npi binary64))"
  defines "t \<equiv> binary64 (binary64 (binary64 (binary64 (0 + l) + l) + l) + l)"
  shows "0 < c"
    and "\<bar>l - c / 2\<bar> \<le> c / 1125899906842624"
    and "\<bar>o1 - c / 2\<bar> \<le> c / 1125899906842624"
    and "\<bar>o2 - c\<bar> \<le> c / 562949953421312"
    and "\<bar>o3 - 3 * c / 2\<bar> \<le> 3 * c / 1125899906842624"
    and "\<bar>t - 2 * c\<bar> \<le> c / 281474976710656"
proof -
  have "(0::real) < 1 / 2 ^ 1000" "(1::real) / 2 ^ 1021 \<le> 1 / 2 ^ 1000"
    by simp_all
  with assms(1) have R: "0 < val r" "1 / 2 ^ 1021 \<le> val r"
    by linarith+
  then show c: "0 < c"
    by (simp add: c_def)
  from R(1) have "val r * 2 \<le> val r * pi"
    using pi_ge_two by (intro mult_left_mono) simp_all
  with R(2) have lo: "1 / 2 ^ 1021 \<le> c / 2"
    unfolding c_def by linarith
  note w = ring_within [OF assms(1), folded c_def l_def o1_def o2_def o3_def]
  from c have n: "0 \<le> c / 2" "0 \<le> c" "0 \<le> 3 * c / 2" "0 \<le> 2 * c"
    by simp_all
  have "\<bar>l - c / 2\<bar> \<le> (c / 2) / 2 ^ 49"
    using w(1) by (rule within_roundings_bound) (use n in simp_all)
  then show "\<bar>l - c / 2\<bar> \<le> c / 1125899906842624"
    by simp
  have "\<bar>o1 - c / 2\<bar> \<le> (c / 2) / 2 ^ 49"
    using w(2) by (rule within_roundings_bound) (use n in simp_all)
  then show "\<bar>o1 - c / 2\<bar> \<le> c / 1125899906842624"
    by simp
  have "\<bar>o2 - c\<bar> \<le> c / 2 ^ 49"
    using w(3) by (rule within_roundings_bound) (use n in simp_all)
  then show "\<bar>o2 - c\<bar> \<le> c / 562949953421312"
    by simp
  have "\<bar>o3 - 3 * c / 2\<bar> \<le> (3 * c / 2) / 2 ^ 49"
    using w(4) by (rule within_roundings_bound) (use n in simp_all)
  then show "\<bar>o3 - 3 * c / 2\<bar> \<le> 3 * c / 1125899906842624"
    by simp
  have "\<bar>t - 2 * c\<bar> \<le> (2 * c) / 2 ^ 49"
    unfolding t_def using total_within [OF w(1) lo]
    by (rule within_roundings_bound) (use n in simp_all)
  then show "\<bar>t - 2 * c\<bar> \<le> c / 281474976710656"
    by simp
qed

lemma fmod_range:
  assumes "0 < m"
  shows "0 \<le> fmod x m" and "fmod x m < m"
proof -
  from assms have "of_int \<lfloor>x / m\<rfloor> * m \<le> x" "x < (of_int \<lfloor>x / m\<rfloor> + 1) * m"
    by (rule floor_divide_lower, rule floor_divide_upper)
  then show "0 \<le> fmod x m" and "fmod x m < m"
    by (simp_all add: fmod_def algebra_simps)
qed

text \<open>The distance on the ring is at most the distance after any number of turns.\<close>

lemma ring_distance_le:
  assumes "0 < tot"
  shows "ring_distance tot x y \<le> \<bar>x - y - of_int j * tot\<bar>"
proof -
  define z where "z = fmod (x - y) tot"
  define i where "i = \<lfloor>(x - y) / tot\<rfloor> - j"
  have z: "0 \<le> z" "z < tot"
    unfolding z_def using assms by (rule fmod_range)+
  have e: "x - y - of_int j * tot = z + of_int i * tot"
    by (simp add: z_def i_def fmod_def algebra_simps)
  have d: "ring_distance tot x y = min z (tot - z)"
    by (simp add: ring_distance_def z_def Let_def)
  show ?thesis
  proof (cases "0 \<le> i")
    case True
    then have "0 \<le> of_int i * tot"
      using assms by simp
    with z show ?thesis unfolding d e by linarith
  next
    case False
    then have "real_of_int i \<le> - 1" by linarith
    then have "of_int i * tot \<le> - 1 * tot"
      using assms by (intro mult_right_mono) simp_all
    with z show ?thesis unfolding d e by linarith
  qed
qed

section \<open>Edge-start offsets\<close>

lemma radius_range:
  assumes "1 / 10 ^ 300 \<le> val r"
  shows "1 / 2 ^ 1000 \<le> val r"
proof -
  have "(1::real) / 2 ^ 1000 \<le> 1 / 10 ^ 300"
    by simp
  with assms show ?thesis by linarith
qed

lemma offsets_increasing_ring:
  assumes "1 / 2 ^ 1000 \<le> val r"
  shows "offsets_increasing (edgestarts binary64 r) [''edge0'', ''edge1'', ''edge2'', ''edge3'']"
proof -
  define c where "c = val r * pi"
  define o1 where "o1 = val (mul binary64 (div2 binary64 (mul binary64 r (I 1))) (npi binary64))"
  define o2 where "o2 = val (mul binary64 r (npi binary64))"
  define o3 where "o3 = val (mul binary64 (div2 binary64 (mul binary64 r (I 3))) (npi binary64))"
  note b = ring_bounds [OF assms, folded c_def o1_def o2_def o3_def]
  from b(1,3,4,5) have "0 < o1" "o1 < o2" "o2 < o3"
    by linarith+
  then have "sorted_wrt (<) [0, o1, o2, o3]"
    by simp
  then show ?thesis
    by (simp add: offsets_increasing_def offset_of_ring o1_def o2_def o3_def)
qed

lemma offsets_near_ring:
  assumes "1 / 2 ^ 1000 \<le> val r"
  defines "t \<equiv> binary64 (binary64 (binary64 (binary64 (0 + val (edgelen binary64 r))
                 + val (edgelen binary64 r)) + val (edgelen binary64 r)) + val (edgelen binary64 r))"
  shows "offsets_near (1 / 10 ^ 14) (edgestarts binary64 r) (ring_edges binary64 r l s) t
           ''edge0'' ''edge1''"
    and "offsets_near (1 / 10 ^ 14) (edgestarts binary64 r) (ring_edges binary64 r l s) t
           ''edge1'' ''edge2''"
    and "offsets_near (1 / 10 ^ 14) (edgestarts binary64 r) (ring_edges binary64 r l s) t
           ''edge2'' ''edge3''"
    and "offsets_near (1 / 10 ^ 14) (edgestarts binary64 r) (ring_edges binary64 r l s) t
           ''edge3'' ''edge0''"
proof -
  define c where "c = val r * pi"
  define len where "len = val (edgelen binary64 r)"
  define o1 where "o1 = val (mul binary64 (div2 binary64 (mul binary64 r (I 1))) (npi binary64))"
  define o2 where "o2 = val (mul binary64 r (npi binary64))"
  define o3 where "o3 = val (mul binary64 (div2 binary64 (mul binary64 r (I 3))) (npi binary64))"
  note b = ring_bounds [OF assms(1), folded c_def len_def o1_def o2_def o3_def t_def]
  from b(1,6) have t: "0 < t"
    by linarith
  have o: "offset_of (edgestarts binary64 r) ''edge0'' = Some 0"
    "offset_of (edgestarts binary64 r) ''edge1'' = Some o1"
    "offset_of (edgestarts binary64 r) ''edge2'' = Some o2"
    "offset_of (edgestarts binary64 r) ''edge3'' = Some o3"
    by (simp_all add: offset_of_ring o1_def o2_def o3_def)
  have e: "edge_length (ring_edges binary64 r l s) ''edge0'' = Some len"
    "edge_length (ring_edges binary64 r l s) ''edge1'' = Some len"
    "edge_length (ring_edges binary64 r l s) ''edge2'' = Some len"
    "edge_length (ring_edges binary64 r l s) ''edge3'' = Some len"
    by (simp_all add: edge_length_ring len_def)
  have "ring_distance t o1 (0 + len) \<le> \<bar>o1 - (0 + len) - of_int 0 * t\<bar>"
    using t by (rule ring_distance_le)
  also have "\<dots> \<le> 1 / 100000000000000 * t"
    using b by (simp only: of_int_0 of_int_minus of_int_1 mult_zero_left, linarith?)
  also have "\<dots> = 1 / 10 ^ 14 * t"
    by simp
  finally show "offsets_near (1 / 10 ^ 14) (edgestarts binary64 r) (ring_edges binary64 r l s) t
           ''edge0'' ''edge1''"
    unfolding offsets_near_def o e by simp
  have "ring_distance t o2 (o1 + len) \<le> \<bar>o2 - (o1 + len) - of_int 0 * t\<bar>"
    using t by (rule ring_distance_le)
  also have "\<dots> \<le> 1 / 100000000000000 * t"
    using b by (simp only: of_int_0 of_int_minus of_int_1 mult_zero_left, linarith?)
  also have "\<dots> = 1 / 10 ^ 14 * t"
    by simp
  finally show "offsets_near (1 / 10 ^ 14) (edgestarts binary64 r) (ring_edges binary64 r l s) t
           ''edge1'' ''edge2''"
    unfolding offsets_near_def o e by simp
  have "ring_distance t o3 (o2 + len) \<le> \<bar>o3 - (o2 + len) - of_int 0 * t\<bar>"
    using t by (rule ring_distance_le)
  also have "\<dots> \<le> 1 / 100000000000000 * t"
    using b by (simp only: of_int_0 of_int_minus of_int_1 mult_zero_left, linarith?)
  also have "\<dots> = 1 / 10 ^ 14 * t"
    by simp
  finally show "offsets_near (1 / 10 ^ 14) (edgestarts binary64 r) (ring_edges binary64 r l s) t
           ''edge2'' ''edge3''"
    unfolding offsets_near_def o e by simp
  have "ring_distance t 0 (o3 + len) \<le> \<bar>0 - (o3 + len) - of_int (- 1) * t\<bar>"
    using t by (rule ring_distance_le)
  also have "\<dots> \<le> 1 / 100000000000000 * t"
    using b by (simp only: of_int_0 of_int_minus of_int_1 mult_zero_left, linarith?)
  also have "\<dots> = 1 / 10 ^ 14 * t"
    by simp
  finally show "offsets_near (1 / 10 ^ 14) (edgestarts binary64 r) (ring_edges binary64 r l s) t
           ''edge3'' ''edge0''"
    unfolding offsets_near_def o e by simp
qed

lemma pairs_of_routes:
  assumes "(k, route) \<in> set (specify_routes p)"
  shows "set (cyclic_pairs route)
           = {(''edge0'', ''edge1''), (''edge1'', ''edge2''), (''edge2'', ''edge3''),
              (''edge3'', ''edge0'')}"
  using assms by (auto simp: specify_routes_def cyclic_pairs_def)

lemma offsets_consistent_ring:
  assumes "1 / 2 ^ 1000 \<le> val r" and "(k, route) \<in> set (specify_routes p)"
  shows "offsets_consistent_within (1 / 10 ^ 14) binary64
           (edgestarts binary64 r) (ring_edges binary64 r l s) route"
proof -
  note t = total_length_ring [OF assms(2), of binary64 r l s]
  show ?thesis
    unfolding offsets_consistent_within_def t option.case list_all_iff
      pairs_of_routes [OF assms(2)]
    using offsets_near_ring [OF assms(1), of l s] by blast
qed

lemma binary64_evalI:
  assumes "n \<le> 1074"
    and "2 ^ 52 \<le> \<bar>x\<bar> * 2 ^ n" and "\<bar>x\<bar> * 2 ^ n < 2 ^ 53"
    and "round_half_even (x * 2 ^ n) = k"
  shows "binary64 x = of_int k / 2 ^ n"
proof -
  have d: "y / 2 powi (- int n) = y * 2 ^ n" for y :: real
    by (simp add: power_int_minus field_simps)
  have "binary64 x = of_int (round_half_even (x / 2 powi (- int n))) * 2 powi (- int n)"
    using assms(1-3) by (intro binary64_at) (simp_all add: d)
  then show ?thesis
    unfolding d assms(4) by (simp add: power_int_minus field_simps)
qed

lemma binary64_subnormal_evalI:
  assumes "\<bar>x\<bar> < 1 / 2 ^ 1022" and "round_half_even (x * 2 ^ 1074) = k"
  shows "binary64 x = of_int k / 2 ^ 1074"
proof -
  have d: "y / 2 powi (- 1074) = y * 2 ^ 1074" for y :: real
    by (simp only: power_int_minus power_int_numeral divide_inverse inverse_inverse_eq)
  have "\<bar>x\<bar> < 2 powi (- 1022)"
    using assms(1) by (simp only: power_int_minus power_int_numeral inverse_eq_divide)
  then have "binary64 x = of_int (round_half_even (x / 2 powi (- 1074))) * 2 powi (- 1074)"
    by (rule binary64_subnormal)
  then show ?thesis
    unfolding d assms(2)
    by (simp only: power_int_minus power_int_numeral divide_inverse)
qed

text \<open>The floats of the ring of radius 11.\<close>

lemma binary64_at_11:
  "binary64 (11) = 11"
  "binary64 (9727076909039105 / 281474976710656) = 18998197087967 / 549755813888"
  "binary64 (18998197087967 / 1099511627776) = 18998197087967 / 1099511627776"
  "binary64 (11 / 2) = 11 / 2"
  "binary64 (9727076909039105 / 562949953421312) = 18998197087967 / 1099511627776"
  "binary64 (33 / 2) = 33 / 2"
  "binary64 (29181230727117315 / 562949953421312) = 7295307681779329 / 140737488355328"
  "binary64 (18998197087967 / 549755813888) = 18998197087967 / 549755813888"
  "binary64 (56994591263901 / 1099511627776) = 56994591263901 / 1099511627776"
  "binary64 (18998197087967 / 274877906944) = 18998197087967 / 274877906944"
  "binary64 (9727076909039105 / 140737488355328) = 18998197087967 / 274877906944"
proof -
  show "binary64 (11) = 11"
    using binary64_evalI [of 49 "11" "6192449487634432"]
    by (simp add: round_half_even_def Let_def)
  show "binary64 (9727076909039105 / 281474976710656) = 18998197087967 / 549755813888"
    using binary64_evalI [of 47 "9727076909039105 / 281474976710656" "4863538454519552"]
    by (simp add: round_half_even_def Let_def)
  show "binary64 (18998197087967 / 1099511627776) = 18998197087967 / 1099511627776"
    using binary64_evalI [of 48 "18998197087967 / 1099511627776" "4863538454519552"]
    by (simp add: round_half_even_def Let_def)
  show "binary64 (11 / 2) = 11 / 2"
    using binary64_evalI [of 50 "11 / 2" "6192449487634432"]
    by (simp add: round_half_even_def Let_def)
  show "binary64 (9727076909039105 / 562949953421312) = 18998197087967 / 1099511627776"
    using binary64_evalI [of 48 "9727076909039105 / 562949953421312" "4863538454519552"]
    by (simp add: round_half_even_def Let_def)
  show "binary64 (33 / 2) = 33 / 2"
    using binary64_evalI [of 48 "33 / 2" "4644337115725824"]
    by (simp add: round_half_even_def Let_def)
  show "binary64 (29181230727117315 / 562949953421312) = 7295307681779329 / 140737488355328"
    using binary64_evalI [of 47 "29181230727117315 / 562949953421312" "7295307681779329"]
    by (simp add: round_half_even_def Let_def)
  show "binary64 (18998197087967 / 549755813888) = 18998197087967 / 549755813888"
    using binary64_evalI [of 47 "18998197087967 / 549755813888" "4863538454519552"]
    by (simp add: round_half_even_def Let_def)
  show "binary64 (56994591263901 / 1099511627776) = 56994591263901 / 1099511627776"
    using binary64_evalI [of 47 "56994591263901 / 1099511627776" "7295307681779328"]
    by (simp add: round_half_even_def Let_def)
  show "binary64 (18998197087967 / 274877906944) = 18998197087967 / 274877906944"
    using binary64_evalI [of 46 "18998197087967 / 274877906944" "4863538454519552"]
    by (simp add: round_half_even_def Let_def)
  show "binary64 (9727076909039105 / 140737488355328) = 18998197087967 / 274877906944"
    using binary64_evalI [of 46 "9727076909039105 / 140737488355328" "4863538454519552"]
    by (simp add: round_half_even_def Let_def)
qed


lemma ring_11:
  "val (edgelen binary64 (I 11)) = 18998197087967 / 2 ^ 40"
  "val (mul binary64 (div2 binary64 (mul binary64 (I 11) (I 1))) (npi binary64))
     = 18998197087967 / 2 ^ 40"
  "val (mul binary64 (I 11) (npi binary64)) = 18998197087967 / 2 ^ 39"
  "val (mul binary64 (div2 binary64 (mul binary64 (I 11) (I 3))) (npi binary64))
     = 7295307681779329 / 2 ^ 47"
  by (simp_all add: edgelen_def div2_def npi_def binary64_pi binary64_at_11)

text \<open>The smallest float above 0 as the radius: half of it rounds to 0.\<close>

lemma binary64_tiny:
  "binary64 (1 / 2 ^ 1074) = 1 / 2 ^ 1074"
  "binary64 (1 / 2 ^ 1074 / 2) = 0"
proof -
  have "binary64 (1 / 2 ^ 1074) = of_int 1 / 2 ^ 1074"
  proof (rule binary64_subnormal_evalI)
    show "\<bar>1 / 2 ^ 1074 :: real\<bar> < 1 / 2 ^ 1022"
      by simp
    show "round_half_even (1 / 2 ^ 1074 * 2 ^ 1074) = 1"
      using round_half_even_int [of 1] by simp
  qed
  then show "binary64 (1 / 2 ^ 1074) = 1 / 2 ^ 1074"
    by (simp only: of_int_1)
  have "binary64 (1 / 2 ^ 1074 / 2) = of_int 0 / 2 ^ 1074"
  proof (rule binary64_subnormal_evalI)
    show "\<bar>1 / 2 ^ 1074 / 2 :: real\<bar> < 1 / 2 ^ 1022"
      by simp
    show "round_half_even (1 / 2 ^ 1074 / 2 * 2 ^ 1074) = 0"
      by (simp add: round_half_even_def)
  qed
  then show "binary64 (1 / 2 ^ 1074 / 2) = 0"
    by (simp only: of_int_0 div_0)
qed

lemma ring_tiny:
  "val (mul binary64 (div2 binary64 (mul binary64 (F (1 / 2 ^ 1074)) (I 1))) (npi binary64)) = 0"
  by (simp only: div2_def npi_def mul.simps to_float.simps val.simps of_int_1 binary64_1
      mult_1_right binary64_tiny mult_zero_left binary64_0)

lemma ring_params [simp]:
  "additional_params (ring_params r) ''radius'' = Some r"
  "additional_params (ring_params r) ''num_lanes'' = Some (I 1)"
  "additional_params (ring_params r) ''speed_limit'' = Some (I 30)"
  by (simp_all add: ring_params_def ADDITIONAL_NET_PARAMS_def)

lemma ring_params_results:
  "specify_nodes (ring_params r) = Inr (ring_nodes r)"
  "\<not> float_overflow r \<Longrightarrow>
     specify_edges rnd (ring_params r) = Inr (ring_edges rnd r (I 1) (I 30))"
  "\<not> float_overflow r \<Longrightarrow> specify_edge_starts rnd (ring_params r) = Inr (edgestarts rnd r)"
  by (simp_all add: specify_nodes_cases specify_edges_cases specify_edge_starts_cases)

lemma tutorial_edge_starts:
  "specify_edge_starts rnd tutorial_net_params = Inr (edgestarts rnd (I 40))"
  by (simp add: specify_edge_starts_cases)

lemma route_of_edge0:
  "map_of (specify_routes p) ''edge0'' = Some [''edge0'', ''edge1'', ''edge2'', ''edge3'']"
  by (simp add: specify_routes_def)

lemma not_increasingI:
  assumes "offset_of starts a = Some x" and "offset_of starts b = Some y" and "\<not> x < y"
  shows "\<not> offsets_increasing starts (a # b # route)"
  using assms by (simp add: offsets_increasing_def split: option.splits)

text \<open>
  C1, as stated, fails on floats. With radius 11 the offset of \<^verbatim>\<open>edge3\<close> is
  \<open>51.83627878423159\<close>, while the offset of \<^verbatim>\<open>edge2\<close> plus its length, modulo the
  total length, is \<open>51.83627878423158\<close>: the two differ in the last bit. With the
  smallest float above 0 as the radius, \<^verbatim>\<open>r * 1/2\<close> rounds to 0, the offset of
  \<^verbatim>\<open>edge1\<close> is 0 like that of \<^verbatim>\<open>edge0\<close>, and the offsets do not increase strictly.
\<close>

theorem edge_starts_counterexample:
  "specify_edge_starts binary64 (ring_params (I 11)) = Inr (edgestarts binary64 (I 11))
   \<and> specify_edges binary64 (ring_params (I 11)) = Inr (ring_edges binary64 (I 11) (I 1) (I 30))
   \<and> offset_of (edgestarts binary64 (I 11)) ''edge2'' = Some (18998197087967 / 2 ^ 39)
   \<and> edge_length (ring_edges binary64 (I 11) (I 1) (I 30)) ''edge2''
       = Some (18998197087967 / 2 ^ 40)
   \<and> total_length binary64 (ring_edges binary64 (I 11) (I 1) (I 30))
         [''edge0'', ''edge1'', ''edge2'', ''edge3'']
       = Some (18998197087967 / 2 ^ 38)
   \<and> binary64 (fmod (binary64 (18998197087967 / 2 ^ 39 + 18998197087967 / 2 ^ 40))
                  (18998197087967 / 2 ^ 38))
       = 7295307681779328 / 2 ^ 47
   \<and> offset_of (edgestarts binary64 (I 11)) ''edge3'' = Some (7295307681779329 / 2 ^ 47)
   \<and> \<not> offsets_consistent binary64 (edgestarts binary64 (I 11))
         (ring_edges binary64 (I 11) (I 1) (I 30)) [''edge0'', ''edge1'', ''edge2'', ''edge3'']
   \<and> specify_edge_starts binary64 (ring_params (F (1 / 2 ^ 1074)))
       = Inr (edgestarts binary64 (F (1 / 2 ^ 1074)))
   \<and> offset_of (edgestarts binary64 (F (1 / 2 ^ 1074))) ''edge0'' = Some 0
   \<and> offset_of (edgestarts binary64 (F (1 / 2 ^ 1074))) ''edge1'' = Some 0
   \<and> \<not> offsets_increasing (edgestarts binary64 (F (1 / 2 ^ 1074)))
         [''edge0'', ''edge1'', ''edge2'', ''edge3'']"
proof -
  have s: "specify_edge_starts binary64 (ring_params (I 11)) = Inr (edgestarts binary64 (I 11))"
    "specify_edges binary64 (ring_params (I 11)) = Inr (ring_edges binary64 (I 11) (I 1) (I 30))"
    "specify_edge_starts binary64 (ring_params (F (1 / 2 ^ 1074)))
       = Inr (edgestarts binary64 (F (1 / 2 ^ 1074)))"
    by (simp_all add: ring_params_results)
  have o: "offset_of (edgestarts binary64 (I 11)) ''edge2'' = Some (18998197087967 / 2 ^ 39)"
    "offset_of (edgestarts binary64 (I 11)) ''edge3'' = Some (7295307681779329 / 2 ^ 47)"
    by (simp_all only: offset_of_ring ring_11)
  have l: "edge_length (ring_edges binary64 (I 11) (I 1) (I 30)) ''edge2''
       = Some (18998197087967 / 2 ^ 40)"
    by (simp only: edge_length_ring ring_11)
  have m: "(''edge0'', [''edge0'', ''edge1'', ''edge2'', ''edge3''])
             \<in> set (specify_routes (ring_params (I 11)))"
    by (simp add: specify_routes_def)
  have t: "total_length binary64 (ring_edges binary64 (I 11) (I 1) (I 30))
         [''edge0'', ''edge1'', ''edge2'', ''edge3'']
       = Some (18998197087967 / 2 ^ 38)"
    unfolding total_length_ring [OF m] ring_11 by (simp add: binary64_at_11)
  have f: "binary64 (fmod (binary64 (18998197087967 / 2 ^ 39 + 18998197087967 / 2 ^ 40))
                  (18998197087967 / 2 ^ 38))
       = 7295307681779328 / 2 ^ 47"
    by (simp add: binary64_at_11 fmod_def)
  have "\<not> offsets_linked binary64 (edgestarts binary64 (I 11))
         (ring_edges binary64 (I 11) (I 1) (I 30)) (18998197087967 / 2 ^ 38) ''edge2'' ''edge3''"
    unfolding offsets_linked_def o l prod.case option.case f by simp
  then have c: "\<not> offsets_consistent binary64 (edgestarts binary64 (I 11))
         (ring_edges binary64 (I 11) (I 1) (I 30)) [''edge0'', ''edge1'', ''edge2'', ''edge3'']"
    unfolding offsets_consistent_def t by (simp add: cyclic_pairs_def)
  have z: "offset_of (edgestarts binary64 (F (1 / 2 ^ 1074))) ''edge0'' = Some 0"
    "offset_of (edgestarts binary64 (F (1 / 2 ^ 1074))) ''edge1'' = Some 0"
    unfolding offset_of_ring ring_tiny by simp_all
  have i: "\<not> offsets_increasing (edgestarts binary64 (F (1 / 2 ^ 1074)))
         [''edge0'', ''edge1'', ''edge2'', ''edge3'']"
    using z by (rule not_increasingI) simp
  from s o l t f c z i show ?thesis
    by (intro conjI)
qed

lemma pi_bounds: "3.141592 < pi" "pi < 3.141593"
  using pi_20_digits by simp_all

lemma tutorial_figures:
  assumes "val r = 40"
  shows "\<bar>val (mul binary64 (div2 binary64 (mul binary64 r (I 1))) (npi binary64)) - 62.83\<bar>
           \<le> 0.005"
    and "\<bar>val (mul binary64 r (npi binary64)) - 125.66\<bar> \<le> 0.005"
    and "\<bar>val (mul binary64 (div2 binary64 (mul binary64 r (I 3))) (npi binary64)) - 188.50\<bar>
           \<le> 0.005"
    and "\<bar>binary64 (binary64 (binary64 (binary64 (0 + val (edgelen binary64 r))
            + val (edgelen binary64 r)) + val (edgelen binary64 r)) + val (edgelen binary64 r))
          - 251.33\<bar> \<le> 0.005"
proof -
  define c where "c = val r * pi"
  define len where "len = val (edgelen binary64 r)"
  define o1 where "o1 = val (mul binary64 (div2 binary64 (mul binary64 r (I 1))) (npi binary64))"
  define o2 where "o2 = val (mul binary64 r (npi binary64))"
  define o3 where "o3 = val (mul binary64 (div2 binary64 (mul binary64 r (I 3))) (npi binary64))"
  define t where "t = binary64 (binary64 (binary64 (binary64 (0 + len) + len) + len) + len)"
  have "1 / 2 ^ 1000 \<le> val r"
    unfolding assms by simp
  note b = ring_bounds [OF this, folded c_def len_def o1_def o2_def o3_def, folded t_def]
  have c: "12566368 / 100000 < c" "c < 12566372 / 100000"
    using pi_bounds unfolding c_def assms by simp_all
  from b c have "\<bar>o1 - 6283 / 100\<bar> \<le> 5 / 1000" "\<bar>o2 - 12566 / 100\<bar> \<le> 5 / 1000"
    "\<bar>o3 - 18850 / 100\<bar> \<le> 5 / 1000" "\<bar>t - 25133 / 100\<bar> \<le> 5 / 1000"
    by linarith+
  then show "\<bar>o1 - 62.83\<bar> \<le> 0.005" "\<bar>o2 - 125.66\<bar> \<le> 0.005"
    "\<bar>o3 - 188.50\<bar> \<le> 0.005" "\<bar>t - 251.33\<bar> \<le> 0.005"
    by simp_all
qed

text \<open>
  C1, amended. For every radius between \<open>1e-300\<close> and \<open>1e300\<close>, the offsets returned
  by \<^verbatim>\<open>specify_edge_starts\<close> increase strictly along the canonical route, the route
  of the origin edge \<^verbatim>\<open>edge0\<close>; along every route, wrap included, the offset of the
  next edge and the offset of the edge plus its length as \<^verbatim>\<open>specify_edges\<close> gives it
  are the same position of the ring up to rounding, within \<open>1e-14\<close> times the total
  length of each other; and for radius 40 the offsets are 0, 62.83, 125.66 and 188.50
  and the total length is 251.33, each to two decimals. All numbers are the floats the
  code computes.
\<close>

theorem edge_starts_follow_lengths:
  assumes "specify_edge_starts binary64 p = Inr starts"
    and "specify_edges binary64 p = Inr edges"
    and "additional_params p ''radius'' = Some r"
    and "1 / 10 ^ 300 \<le> val r" and "val r \<le> 10 ^ 300"
  shows "map_of (specify_routes p) ''edge0'' = Some [''edge0'', ''edge1'', ''edge2'', ''edge3'']
       \<and> offsets_increasing starts [''edge0'', ''edge1'', ''edge2'', ''edge3'']
       \<and> (\<forall>(k, route) \<in> set (specify_routes p).
            offsets_consistent_within (1 / 10 ^ 14) binary64 starts edges route)
       \<and> (val r = 40 \<longrightarrow>
            (\<exists>o1 o2 o3 t.
               map (offset_of starts) [''edge0'', ''edge1'', ''edge2'', ''edge3'']
                 = [Some 0, Some o1, Some o2, Some o3]
             \<and> \<bar>o1 - 62.83\<bar> \<le> 0.005 \<and> \<bar>o2 - 125.66\<bar> \<le> 0.005 \<and> \<bar>o3 - 188.50\<bar> \<le> 0.005
             \<and> total_length binary64 edges [''edge0'', ''edge1'', ''edge2'', ''edge3''] = Some t
             \<and> \<bar>t - 251.33\<bar> \<le> 0.005))"
proof -
  from assms(1,3) have s: "starts = edgestarts binary64 r"
    by (rule specify_edge_starts_InrD)
  from assms(2,3) obtain l sp where e: "edges = ring_edges binary64 r l sp"
    by (rule specify_edges_radiusD)
  from assms(4) have range: "1 / 2 ^ 1000 \<le> val r"
    by (rule radius_range)
  have inc: "offsets_increasing starts [''edge0'', ''edge1'', ''edge2'', ''edge3'']"
    unfolding s using range by (rule offsets_increasing_ring)
  have con: "\<forall>(k, route) \<in> set (specify_routes p).
               offsets_consistent_within (1 / 10 ^ 14) binary64 starts edges route"
    unfolding s e using offsets_consistent_ring [OF range] by blast
  have m: "(''edge0'', [''edge0'', ''edge1'', ''edge2'', ''edge3'']) \<in> set (specify_routes p)"
    by (simp add: specify_routes_def)
  have num: "\<exists>o1 o2 o3 t.
               map (offset_of starts) [''edge0'', ''edge1'', ''edge2'', ''edge3'']
                 = [Some 0, Some o1, Some o2, Some o3]
             \<and> \<bar>o1 - 62.83\<bar> \<le> 0.005 \<and> \<bar>o2 - 125.66\<bar> \<le> 0.005 \<and> \<bar>o3 - 188.50\<bar> \<le> 0.005
             \<and> total_length binary64 edges [''edge0'', ''edge1'', ''edge2'', ''edge3''] = Some t
             \<and> \<bar>t - 251.33\<bar> \<le> 0.005"
    if r40: "val r = 40"
  proof (intro exI conjI)
    show "map (offset_of starts) [''edge0'', ''edge1'', ''edge2'', ''edge3'']
            = [Some 0,
               Some (val (mul binary64 (div2 binary64 (mul binary64 r (I 1))) (npi binary64))),
               Some (val (mul binary64 r (npi binary64))),
               Some (val (mul binary64 (div2 binary64 (mul binary64 r (I 3))) (npi binary64)))]"
      unfolding s by (simp add: offset_of_ring)
    show "total_length binary64 edges [''edge0'', ''edge1'', ''edge2'', ''edge3'']
            = Some (binary64 (binary64 (binary64 (binary64 (0 + val (edgelen binary64 r))
                + val (edgelen binary64 r)) + val (edgelen binary64 r)) + val (edgelen binary64 r)))"
      unfolding e by (rule total_length_ring [OF m])
  qed (rule tutorial_figures [OF r40])+
  from route_of_edge0 inc con num show ?thesis by blast
qed

theorem edge_starts_follow_lengths_witness:
  "specify_edge_starts binary64 tutorial_net_params = Inr (edgestarts binary64 (I 40))
   \<and> specify_edges binary64 tutorial_net_params = Inr (ring_edges binary64 (I 40) (I 1) (I 30))
   \<and> additional_params tutorial_net_params ''radius'' = Some (I 40)
   \<and> 1 / 10 ^ 300 \<le> val (I 40) \<and> val (I 40) \<le> 10 ^ 300 \<and> val (I 40) = 40
   \<and> offsets_increasing (edgestarts binary64 (I 40)) [''edge0'', ''edge1'', ''edge2'', ''edge3'']
   \<and> offsets_consistent_within (1 / 10 ^ 14) binary64 (edgestarts binary64 (I 40))
        (ring_edges binary64 (I 40) (I 1) (I 30)) [''edge2'', ''edge3'', ''edge0'', ''edge1'']
   \<and> (\<exists>o1 o2 o3 t.
         map (offset_of (edgestarts binary64 (I 40))) [''edge0'', ''edge1'', ''edge2'', ''edge3'']
           = [Some 0, Some o1, Some o2, Some o3]
       \<and> \<bar>o1 - 62.83\<bar> \<le> 0.005 \<and> \<bar>o2 - 125.66\<bar> \<le> 0.005 \<and> \<bar>o3 - 188.50\<bar> \<le> 0.005
       \<and> total_length binary64 (ring_edges binary64 (I 40) (I 1) (I 30))
             [''edge0'', ''edge1'', ''edge2'', ''edge3'']
           = Some t
       \<and> \<bar>t - 251.33\<bar> \<le> 0.005)"
proof -
  have lo: "1 / 10 ^ 300 \<le> val (I 40)" and hi: "val (I 40) \<le> 10 ^ 300" and v: "val (I 40) = 40"
    by simp_all
  have m: "(''edge2'', [''edge2'', ''edge3'', ''edge0'', ''edge1''])
             \<in> set (specify_routes tutorial_net_params)"
    by (simp add: specify_routes_def)
  note t = edge_starts_follow_lengths
    [OF tutorial_edge_starts tutorial_edges tutorial_params(1) lo hi]
  from t m have c: "offsets_consistent_within (1 / 10 ^ 14) binary64 (edgestarts binary64 (I 40))
        (ring_edges binary64 (I 40) (I 1) (I 30)) [''edge2'', ''edge3'', ''edge0'', ''edge1'']"
    by blast
  from t v c lo hi tutorial_edge_starts [of binary64] tutorial_edges [of binary64]
    tutorial_params(1)
  show ?thesis by blast
qed

section \<open>Edge lengths and total length\<close>




section \<open>Types of the descriptor values\<close>




section \<open>Round trip through the global position\<close>












section \<open>Reading a shape string back\<close>

lemma digit_val_digit: "d < 10 \<Longrightarrow> digit_val (digit d) = d"
proof -
  assume "d < 10"
  then have "d \<in> {0, 1, 2, 3, 4, 5, 6, 7, 8, 9}" by auto
  then show ?thesis
    by (auto simp: digit_val_def digit_def)
qed

lemma nat_of_digits_snoc: "nat_of_digits (ds @ [ch]) = 10 * nat_of_digits ds + digit_val ch"
  by (simp add: nat_of_digits_def)

lemma nat_of_digits_str_nat: "nat_of_digits (str_nat n) = n"
proof (induction n rule: str_nat.induct)
  case (1 n)
  show ?case
  proof (cases "n < 10")
    case True
    then show ?thesis
      by (subst str_nat.simps) (simp add: nat_of_digits_def digit_val_digit)
  next
    case False
    with 1 show ?thesis
      by (subst str_nat.simps) (simp add: nat_of_digits_snoc digit_val_digit)
  qed
qed

lemma nat_of_two_digits:
  "nat_of_digits [digit (h mod 100 div 10), digit (h mod 10)] = h mod 100"
proof -
  define m where "m = h mod 100"
  have lt: "m div 10 < 10" "h mod 10 < 10"
    by (simp_all add: m_def)
  have "h mod 10 = m mod 10"
    by (simp add: m_def mod_mod_cancel)
  moreover have "10 * (m div 10) + m mod 10 = m"
    by simp
  ultimately have "10 * (m div 10) + h mod 10 = m"
    by simp
  moreover have "nat_of_digits [digit (m div 10), digit (h mod 10)] = 10 * (m div 10) + h mod 10"
    using lt by (simp add: nat_of_digits_def digit_val_digit)
  ultimately show ?thesis
    by (simp add: m_def)
qed

lemma round_half_even_sign:
  "x < 0 \<Longrightarrow> round_half_even x \<le> 0" "0 \<le> x \<Longrightarrow> 0 \<le> round_half_even x"
proof -
  show "round_half_even x \<le> 0" if "x < 0"
  proof -
    from that have "\<lfloor>x\<rfloor> + 1 \<le> 0" by linarith
    then show ?thesis unfolding round_half_even_def Let_def by auto
  qed
  show "0 \<le> round_half_even x" if "0 \<le> x"
  proof -
    from that have "0 \<le> \<lfloor>x\<rfloor>" by simp
    then show ?thesis unfolding round_half_even_def Let_def by auto
  qed
qed

lemma parse2_unsigned:
  assumes "list_all is_digit w" and "w \<noteq> []" and "is_digit a" and "is_digit b"
  shows "parse2 (w @ CHR ''.'' # [a, b])
           = Some (real (nat_of_digits w) + real (nat_of_digits [a, b]) / 100)"
proof -
  from assms(1,2) obtain ch t where w: "w = ch # t" and ch: "is_digit ch"
    by (cases w) auto
  from ch have nm: "ch \<noteq> CHR ''-''" by auto
  have m: "(case w @ CHR ''.'' # [a, b] of [] \<Rightarrow> False | c # u \<Rightarrow> c = CHR ''-'') = False"
    by (simp add: w nm)
  have tk: "takeWhile is_digit (w @ CHR ''.'' # [a, b]) = w"
    and dr: "dropWhile is_digit (w @ CHR ''.'' # [a, b]) = [CHR ''.'', a, b]"
    using assms(1) by (simp_all add: takeWhile_digits)
  show ?thesis
    unfolding parse2_def m Let_def if_False tk dr using assms(2,3,4) by simp
qed

lemma parse2_signed:
  assumes "list_all is_digit w" and "w \<noteq> []" and "is_digit a" and "is_digit b"
  shows "parse2 (CHR ''-'' # w @ CHR ''.'' # [a, b])
           = Some (- (real (nat_of_digits w) + real (nat_of_digits [a, b]) / 100))"
proof -
  have m: "(case CHR ''-'' # w @ CHR ''.'' # [a, b] of [] \<Rightarrow> False | c # u \<Rightarrow> c = CHR ''-'') = True"
    by simp
  have tk: "takeWhile is_digit (w @ CHR ''.'' # [a, b]) = w"
    and dr: "dropWhile is_digit (w @ CHR ''.'' # [a, b]) = [CHR ''.'', a, b]"
    using assms(1) by (simp_all add: takeWhile_digits)
  show ?thesis
    unfolding parse2_def m Let_def if_True list.sel tk dr using assms(2,3,4) by simp
qed

text \<open>The number that \<^verbatim>\<open>"%.2f" % x\<close> denotes: \<open>x\<close> rounded to hundredths.\<close>

lemma parse2_fmt2: "parse2 (fmt2 x) = Some (of_int (round_half_even (100 * x)) / 100)"
proof -
  define h where "h = hundredths x"
  have ds: "list_all is_digit (str_nat (h div 100))" "str_nat (h div 100) \<noteq> []"
    using str_nat_digits by blast+
  have d2: "is_digit (digit (h mod 100 div 10))" "is_digit (digit (h mod 10))"
    by (rule is_digit_digit, simp)+
  have "real (h div 100) + real (h mod 100) / 100 = real h / 100"
  proof -
    have "real h = real (100 * (h div 100) + h mod 100)" by simp
    also have "\<dots> = 100 * real (h div 100) + real (h mod 100)"
      by (simp only: of_nat_add of_nat_mult of_nat_numeral)
    finally show ?thesis by simp
  qed
  then have v: "real (nat_of_digits (str_nat (h div 100)))
      + real (nat_of_digits [digit (h mod 100 div 10), digit (h mod 10)]) / 100 = real h / 100"
    by (simp only: nat_of_digits_str_nat nat_of_two_digits)
  show ?thesis
  proof (cases "x < 0")
    case True
    then have fx: "fmt2 x = CHR ''-'' # str_nat (h div 100)
        @ CHR ''.'' # [digit (h mod 100 div 10), digit (h mod 10)]"
      by (simp add: fmt2_def h_def Let_def)
    from True have "round_half_even (100 * x) \<le> 0"
      by (intro round_half_even_sign) simp
    then have "- (real h / 100) = of_int (round_half_even (100 * x)) / 100"
      by (simp add: h_def hundredths_def)
    moreover have "parse2 (fmt2 x) = Some (- (real h / 100))"
      unfolding fx parse2_signed [OF ds d2] v ..
    ultimately show ?thesis by simp
  next
    case False
    then have fx: "fmt2 x = str_nat (h div 100)
        @ CHR ''.'' # [digit (h mod 100 div 10), digit (h mod 10)]"
      by (simp add: fmt2_def h_def Let_def)
    from False have "0 \<le> round_half_even (100 * x)"
      by (intro round_half_even_sign) simp
    then have "real h / 100 = of_int (round_half_even (100 * x)) / 100"
      by (simp add: h_def hundredths_def)
    moreover have "parse2 (fmt2 x) = Some (real h / 100)"
      unfolding fx parse2_unsigned [OF ds d2] v ..
    ultimately show ?thesis by simp
  qed
qed

lemma parse_point_fmt2:
  "parse_point (fmt2 x @ CHR '','' # fmt2 y)
     = Some (of_int (round_half_even (100 * x)) / 100, of_int (round_half_even (100 * y)) / 100)"
  by (simp add: parse_point_def split_append split_no_sep fmt2_no_sep parse2_fmt2)

lemma those_map_Some:
  "(\<And>x. x \<in> set xs \<Longrightarrow> f x = Some (g x)) \<Longrightarrow> those (map f xs) = Some (map g xs)"
  by (induction xs) simp_all

lemma split_arc_shape:
  "split CHR '' '' (arc_shape rnd r a b)
     = map (\<lambda>(x, y). fmt2 x @ CHR '','' # fmt2 y) (arc_points rnd r a b)"
proof -
  define xs where "xs = map (\<lambda>(x, y). fmt2 x @ '','' @ fmt2 y) (arc_points rnd r a b)"
  have "length xs = 40"
    by (simp add: xs_def arc_points_def length_linspace)
  then have ne: "xs \<noteq> []" by auto
  have sp: "\<forall>s \<in> set xs. CHR '' '' \<notin> set s"
    by (auto simp: xs_def fmt2_no_sep)
  have "split CHR '' '' (arc_shape rnd r a b) = xs"
    unfolding arc_shape_def xs_def [symmetric] using ne sp by (rule split_join)
  then show ?thesis by (simp add: xs_def)
qed

lemma shape_points_arc_shape:
  "shape_points (arc_shape rnd r a b)
     = Some (map (\<lambda>(x, y). (of_int (round_half_even (100 * x)) / 100,
                              of_int (round_half_even (100 * y)) / 100))
               (arc_points rnd r a b))"
  unfolding shape_points_def split_arc_shape map_map
  by (rule those_map_Some) (auto simp: parse_point_fmt2)

lemma ends_linspace:
  assumes "1 < n" and "rnd 0 = 0"
  shows "linspace rnd a b n \<noteq> []" and "hd (linspace rnd a b n) = rnd a"
    and "last (linspace rnd a b n) = b"
proof -
  from assms(1) have u: "[0..<n - 1] = 0 # [1..<n - 1]"
    by (simp add: upt_conv_Cons)
  from assms(1) show "linspace rnd a b n \<noteq> []" "last (linspace rnd a b n) = b"
    by (simp_all add: linspace_def Let_def)
  from assms show "hd (linspace rnd a b n) = rnd a"
    unfolding linspace_def Let_def u by simp
qed

lemma ends_arc_points:
  assumes "rnd 0 = 0"
  shows "arc_points rnd r a b \<noteq> []"
    and "hd (arc_points rnd r a b)
           = (rnd (to_float rnd r * rnd (cos (rnd a))), rnd (to_float rnd r * rnd (sin (rnd a))))"
    and "last (arc_points rnd r a b)
           = (rnd (to_float rnd r * rnd (cos b)), rnd (to_float rnd r * rnd (sin b)))"
proof -
  have n: "(1::nat) < 40" by simp
  note e = ends_linspace [where rnd = rnd and a = a and b = b, OF n assms]
  from e(1) show "arc_points rnd r a b \<noteq> []"
    by (simp add: arc_points_def)
  from e(1,2) show "hd (arc_points rnd r a b)
           = (rnd (to_float rnd r * rnd (cos (rnd a))), rnd (to_float rnd r * rnd (sin (rnd a))))"
    by (simp add: arc_points_def hd_map val_mul_float)
  from e(1,3) show "last (arc_points rnd r a b)
           = (rnd (to_float rnd r * rnd (cos b)), rnd (to_float rnd r * rnd (sin b)))"
    by (simp add: arc_points_def last_map val_mul_float)
qed

section \<open>Floats of the shape end points\<close>

text \<open>An int below \<open>2 ^ 53\<close> is a float.\<close>

lemma binary64_of_int:
  assumes "\<bar>n\<bar> < 2 ^ 53"
  shows "binary64 (of_int n) = of_int n"
proof (cases "n = 0")
  case True
  then show ?thesis by simp
next
  case False
  define k where "k = \<lfloor>log 2 \<bar>real_of_int n\<bar>\<rfloor>"
  from False have "1 \<le> \<bar>n\<bar>"
    by simp
  then have "(1::real) \<le> of_int \<bar>n\<bar>"
    by (simp only: of_int_1_le_iff)
  then have one: "1 \<le> \<bar>real_of_int n\<bar>"
    by (simp only: of_int_abs)
  then have "2 powi 0 \<le> \<bar>real_of_int n\<bar>" by simp
  then have k0: "0 \<le> k"
    unfolding k_def by (rule floor_log2_ge)
  from assms have "real_of_int \<bar>n\<bar> < 2 ^ 53"
    by (simp only: of_int_less_numeral_power_cancel_iff)
  then have "\<bar>real_of_int n\<bar> < 2 ^ 53"
    by (simp only: of_int_abs)
  then have "\<bar>real_of_int n\<bar> < 2 powi 53"
    by simp
  with one have "k < 53"
    unfolding k_def by (intro floor_log2_less) simp_all
  then have k52: "k \<le> 52" by simp
  define m where "m = nat (52 - k)"
  from k52 have e: "k - 52 = - int m"
    by (simp add: m_def)
  have p: "(2::real) powi (- int m) = 1 / 2 ^ m"
    by (simp add: power_int_minus field_simps)
  from e have mx: "max (k - 52) (- 1074) = - int m"
    using k0 by simp
  have "real_of_int n / (1 / 2 ^ m) = of_int (n * 2 ^ m)"
    by simp
  then have r: "round_half_even (real_of_int n / (1 / 2 ^ m)) = n * 2 ^ m"
    by (simp only: round_half_even_int)
  from False have "binary64 (of_int n)
      = of_int (round_half_even (of_int n / 2 powi (- int m))) * 2 powi (- int m)"
    by (simp add: binary64_def Let_def k_def [symmetric] mx)
  also have "\<dots> = of_int (n * 2 ^ m) * (1 / 2 ^ m)"
    unfolding p r ..
  also have "\<dots> = of_int n"
    by simp
  finally show ?thesis .
qed

lemma to_float_binary64:
  assumes "is_binary64 r" and "\<bar>val r\<bar> < 2 ^ 53"
  shows "to_float binary64 r = val r"
proof (cases r)
  case (I n)
  with assms(2) have "real_of_int \<bar>n\<bar> < 2 ^ 53"
    by (simp only: val.simps of_int_abs)
  then have "\<bar>n\<bar> < 2 ^ 53"
    by (simp only: of_int_less_numeral_power_cancel_iff)
  then show ?thesis
    by (simp add: I binary64_of_int)
next
  case (F x)
  then show ?thesis by simp
qed

lemma binary64_idem:
  assumes "is_binary64 r" and "\<bar>val r\<bar> < 2 ^ 53"
  shows "binary64 (val r) = val r"
  using assms to_float_binary64 [OF assms] by (cases r) simp_all

text \<open>The angles at which the arcs begin and end are floats.\<close>

lemma binary64_angles:
  "binary64 (884279719003555 / 281474976710656) = 884279719003555 / 281474976710656"
  "binary64 (884279719003555 / 562949953421312) = 884279719003555 / 562949953421312"
  "binary64 (2652839157010665 / 281474976710656) = 2652839157010665 / 281474976710656"
  "binary64 (2652839157010665 / 562949953421312) = 2652839157010665 / 562949953421312"
  "binary64 (3) = 3"
proof -
  show "binary64 (884279719003555 / 281474976710656) = 884279719003555 / 281474976710656"
    using binary64_evalI [of 51 "884279719003555 / 281474976710656" "7074237752028440"]
    by (simp add: round_half_even_def Let_def)
  show "binary64 (884279719003555 / 562949953421312) = 884279719003555 / 562949953421312"
    using binary64_evalI [of 52 "884279719003555 / 562949953421312" "7074237752028440"]
    by (simp add: round_half_even_def Let_def)
  show "binary64 (2652839157010665 / 281474976710656) = 2652839157010665 / 281474976710656"
    using binary64_evalI [of 49 "2652839157010665 / 281474976710656" "5305678314021330"]
    by (simp add: round_half_even_def Let_def)
  show "binary64 (2652839157010665 / 562949953421312) = 2652839157010665 / 562949953421312"
    using binary64_evalI [of 50 "2652839157010665 / 562949953421312" "5305678314021330"]
    by (simp add: round_half_even_def Let_def)
  show "binary64 (3) = 3"
    using binary64_evalI [of 51 "3" "6755399441055744"]
    by (simp add: round_half_even_def Let_def)
qed

lemma arc_angles:
  "val (div2 binary64 (neg (npi binary64))) = - (val (npi binary64) / 2)"
  "val (div2 binary64 (npi binary64)) = val (npi binary64) / 2"
  "val (div2 binary64 (mul binary64 (I 3) (npi binary64))) = 3 * val (npi binary64) / 2"
  "binary64 (- (val (npi binary64) / 2)) = - (val (npi binary64) / 2)"
  "binary64 (val (npi binary64) / 2) = val (npi binary64) / 2"
  "binary64 (val (npi binary64)) = val (npi binary64)"
  by (simp_all add: div2_def npi_def binary64_pi binary64_minus binary64_angles
      flip: minus_divide_left)

text \<open>
  The cosine is within \<open>x\<^sup>2 / 2\<close> of 1 and the sine within \<open>\<bar>x\<bar>\<^sup>3 / 6\<close> of \<open>x\<close>.
\<close>

lemma cos_near_1:
  fixes x :: real
  shows "1 - x\<^sup>2 / 2 \<le> cos x" "cos x \<le> 1"
proof -
  have "\<bar>sin (x / 2)\<bar> \<le> \<bar>x / 2\<bar>"
    by (rule abs_sin_x_le_abs_x)
  then have "\<bar>sin (x / 2)\<bar>\<^sup>2 \<le> \<bar>x / 2\<bar>\<^sup>2"
    by (intro power_mono) simp_all
  then have "(sin (x / 2))\<^sup>2 \<le> x\<^sup>2 / 4"
    by (simp add: power_divide)
  moreover have "cos x = 1 - 2 * (sin (x / 2))\<^sup>2"
    using cos_double_sin [of "x / 2"] by simp
  ultimately show "1 - x\<^sup>2 / 2 \<le> cos x"
    by linarith
  show "cos x \<le> 1"
    by (rule cos_le_one)
qed

lemma sin_near_x:
  fixes x :: real
  shows "\<bar>sin x - x\<bar> \<le> \<bar>x\<bar> ^ 3 / 6"
proof -
  have s: "(\<Sum>m<3. sin_coeff m * x ^ m) = x"
    by (simp add: sin_coeff_def eval_nat_numeral)
  have f: "inverse (fact 3 :: real) = 1 / 6"
    by (simp add: eval_nat_numeral)
  from Maclaurin_sin_bound [of x 3] show ?thesis
    unfolding s f by simp
qed

text \<open>A number just below 1 rounds to 1.\<close>

lemma binary64_near_1:
  assumes "1 - 1 / 2 ^ 55 \<le> x" and "x \<le> 1"
  shows "binary64 x = 1"
proof (cases "x = 1")
  case True
  then show ?thesis by simp
next
  case False
  with assms(2) have lt: "x < 1" by simp
  have p: "(2::real) ^ 53 = 9007199254740992" "(2::real) ^ 52 = 4503599627370496"
    "(1::real) / 2 ^ 55 = 1 / 36028797018963968"
    by simp_all
  have "binary64 x = of_int (2 ^ 53) / 2 ^ 53"
  proof (rule binary64_eqI)
    show "(53::nat) \<le> 1074" by simp
    show "2 ^ 52 \<le> \<bar>x\<bar> * 2 ^ 53"
      using assms(1) lt unfolding p by linarith
    show "\<bar>x\<bar> * 2 ^ 53 < 2 ^ 53"
      using assms(1) lt unfolding p by linarith
    show "\<bar>x * 2 ^ 53 - of_int (2 ^ 53)\<bar> < 1 / 2"
      using assms(1) lt unfolding p by simp
  qed
  then show ?thesis by simp
qed

lemma binary64_cos_small:
  assumes "\<bar>x\<bar> \<le> 1 / 10 ^ 9"
  shows "binary64 (cos x) = 1"
proof (rule binary64_near_1)
  have e: "((1::real) / 10 ^ 9)\<^sup>2 = 1 / 10 ^ 18"
    by (simp add: power2_eq_square)
  have "\<bar>x\<bar>\<^sup>2 \<le> (1 / 10 ^ 9)\<^sup>2"
    using assms by (intro power_mono) simp_all
  then have "x\<^sup>2 \<le> 1 / 10 ^ 18"
    unfolding e power2_abs .
  also have "\<dots> \<le> (1::real) / 2 ^ 54"
    by simp
  finally have "x\<^sup>2 / 2 \<le> 1 / 2 ^ 55"
    by simp
  with cos_near_1(1) [of x] show "1 - 1 / 2 ^ 55 \<le> cos x"
    by linarith
  show "cos x \<le> 1"
    by (rule cos_le_one)
qed

lemma quarter_shift:
  fixes x :: real
  shows "cos (x / 2) = sin ((pi - x) / 2)"
    and "sin (x / 2) = cos ((pi - x) / 2)"
    and "cos x = - cos (pi - x)"
    and "sin x = sin (pi - x)"
    and "cos (3 * x / 2) = - sin (3 * (pi - x) / 2)"
    and "sin (3 * x / 2) = - cos (3 * (pi - x) / 2)"
proof -
  have h: "(pi - x) / 2 = pi / 2 - x / 2"
    by (simp add: diff_divide_distrib)
  show "cos (x / 2) = sin ((pi - x) / 2)"
    unfolding h using cos_sin_eq [of "x / 2"] by simp
  show "sin (x / 2) = cos ((pi - x) / 2)"
    unfolding h using sin_cos_eq [of "x / 2"] by simp
  show "cos x = - cos (pi - x)" "sin x = sin (pi - x)"
    by simp_all
  define y where "y = 3 * (pi - x) / 2"
  have t: "3 * x / 2 = (pi / 2 - y) + pi"
    by (simp add: y_def field_simps)
  have "cos (3 * x / 2) = - cos (pi / 2 - y)"
    unfolding t by (rule cos_periodic_pi)
  also have "cos (pi / 2 - y) = sin y"
    using sin_cos_eq [of y] by simp
  finally show "cos (3 * x / 2) = - sin (3 * (pi - x) / 2)"
    by (simp add: y_def)
  have "sin (3 * x / 2) = - sin (pi / 2 - y)"
    unfolding t by (rule sin_periodic_pi)
  also have "sin (pi / 2 - y) = cos y"
    using cos_sin_eq [of y] by simp
  finally show "sin (3 * x / 2) = - cos (3 * (pi - x) / 2)"
    by (simp add: y_def)
qed

text \<open>
  The cosines and sines at the end points of the arcs, as floats. Where the exact
  angle has cosine or sine 0, the float angle leaves a residue of at most
  \<open>1.8372e-16\<close> in magnitude; at \<^verbatim>\<open>3 * pi / 2\<close> the residue of the cosine is
  below \<open>- 1.8367e-16\<close>.
\<close>

lemma numpy_trig:
  defines "P \<equiv> val (npi binary64)"
  shows "\<bar>cos (P / 2)\<bar> \<le> 18372 / 10 ^ 20"
    and "binary64 (sin (P / 2)) = 1"
    and "binary64 (cos P) = - 1"
    and "\<bar>sin P\<bar> \<le> 18372 / 10 ^ 20"
    and "\<bar>cos (3 * P / 2)\<bar> \<le> 18372 / 10 ^ 20"
    and "cos (3 * P / 2) \<le> - (18367 / 10 ^ 20)"
    and "binary64 (sin (3 * P / 2)) = - 1"
proof -
  define g where "g = pi - P"
  have g: "12245 / 100000000000000000000 < g" "g < 12248 / 100000000000000000000"
    using pi_gap unfolding g_def P_def val_npi_binary64 by simp_all
  have small: "\<bar>g / 2\<bar> \<le> 1 / 10 ^ 9" "\<bar>g\<bar> \<le> 1 / 10 ^ 9" "\<bar>3 * g / 2\<bar> \<le> 1 / 10 ^ 9"
    using g by simp_all
  have "\<bar>sin (g / 2)\<bar> \<le> \<bar>g / 2\<bar>"
    by (rule abs_sin_x_le_abs_x)
  with g have "\<bar>sin (g / 2)\<bar> \<le> 18372 / 100000000000000000000"
    by linarith
  then show "\<bar>cos (P / 2)\<bar> \<le> 18372 / 10 ^ 20"
    unfolding quarter_shift(1) [of P] g_def by simp
  show "binary64 (sin (P / 2)) = 1"
    unfolding quarter_shift(2) [of P] g_def [symmetric] using small(1)
    by (rule binary64_cos_small)
  have "binary64 (- cos g) = - 1"
    unfolding binary64_minus using binary64_cos_small [OF small(2)] by simp
  then show "binary64 (cos P) = - 1"
    unfolding quarter_shift(3) [of P] g_def .
  have "\<bar>sin g\<bar> \<le> \<bar>g\<bar>"
    by (rule abs_sin_x_le_abs_x)
  with g have "\<bar>sin g\<bar> \<le> 18372 / 100000000000000000000"
    by linarith
  then show "\<bar>sin P\<bar> \<le> 18372 / 10 ^ 20"
    unfolding quarter_shift(4) [of P] g_def by simp
  have "\<bar>sin (3 * g / 2)\<bar> \<le> \<bar>3 * g / 2\<bar>"
    by (rule abs_sin_x_le_abs_x)
  with g have "\<bar>sin (3 * g / 2)\<bar> \<le> 18372 / 100000000000000000000"
    by linarith
  then show "\<bar>cos (3 * P / 2)\<bar> \<le> 18372 / 10 ^ 20"
    unfolding quarter_shift(5) [of P] g_def by simp
  have "\<bar>3 * g / 2\<bar> ^ 3 \<le> (1 / 10 ^ 9) ^ 3"
    using small(3) by (intro power_mono) simp_all
  also have "\<dots> = (1::real) / 1000000000000000000000000000"
    by (simp add: power3_eq_cube)
  finally have "\<bar>3 * g / 2\<bar> ^ 3 / 6 \<le> 1 / 1000000000000000000000000000"
    by simp
  with sin_near_x [of "3 * g / 2"] g
  have "18367 / 100000000000000000000 \<le> sin (3 * g / 2)"
    by linarith
  then show "cos (3 * P / 2) \<le> - (18367 / 10 ^ 20)"
    unfolding quarter_shift(5) [of P] g_def by simp
  have "binary64 (- cos (3 * g / 2)) = - 1"
    unfolding binary64_minus using binary64_cos_small [OF small(3)] by simp
  then show "binary64 (sin (3 * P / 2)) = - 1"
    unfolding quarter_shift(6) [of P] g_def .
qed

section \<open>Shape end points\<close>

text \<open>A coordinate printed with two decimals is within 1e-2 of the float printed.\<close>

lemma printed_near:
  "\<bar>of_int (round_half_even (100 * x)) / 100 - x\<bar> \<le> 1 / 100"
proof -
  define k where "k = real_of_int (round_half_even (100 * x))"
  from round_half_even_error [of "100 * x"] have "\<bar>k - 100 * x\<bar> \<le> 1 / 2"
    by (simp add: k_def)
  then have "\<bar>k / 100 - x\<bar> \<le> 1 / 100"
    by linarith
  then show ?thesis
    by (simp add: k_def)
qed

text \<open>
  The residue of a cosine or sine that should be 0, times a radius of at most
  \<open>8e13\<close>, is printed as \<open>0.00\<close>, \<open>0.01\<close> or \<open>-0.01\<close>.
\<close>

lemma residue_error:
  "\<bar>binary64 y - y\<bar> \<le> \<bar>y\<bar> / 9007199254740992 + 1 / 10 ^ 300"
proof -
  have "(1::real) / 2 ^ 1075 \<le> 1 / 10 ^ 300"
    by simp
  with binary64_error_abs [of y] show ?thesis
    by simp
qed

lemma printed_residue:
  assumes "0 \<le> R" and "R \<le> 8 * 10 ^ 13" and "\<bar>s\<bar> \<le> 18372 / 10 ^ 20"
  shows "\<bar>real_of_int (round_half_even (100 * binary64 (R * binary64 s))) / 100 - 0\<bar>
           \<le> 1 / 100"
proof -
  define tiny :: real where "tiny = 1 / 10 ^ 300"
  have tiny: "0 \<le> tiny" "tiny \<le> 1 / 1000000000000000000000000000000"
    by (simp_all add: tiny_def)
  have e: "\<bar>binary64 y - y\<bar> \<le> \<bar>y\<bar> / 9007199254740992 + tiny" for y
    unfolding tiny_def by (rule residue_error)
  from assms(3) have s: "\<bar>s\<bar> \<le> 18372 / 100000000000000000000"
    by simp
  from assms(2) have R: "R \<le> 80000000000000"
    by simp
  define b where "b = binary64 s"
  from e [of s] s tiny have b: "\<bar>b\<bar> \<le> 18373 / 100000000000000000000"
    unfolding b_def by linarith
  have "\<bar>R * b\<bar> = R * \<bar>b\<bar>"
    using assms(1) by (simp add: abs_mult)
  also have "\<dots> \<le> 80000000000000 * (18373 / 100000000000000000000)"
    using R b assms(1) by (intro mult_mono) simp_all
  finally have p: "\<bar>R * b\<bar> \<le> 146984 / 10000000"
    by simp
  define w where "w = binary64 (R * b)"
  from e [of "R * b"] p tiny have w: "\<bar>w\<bar> \<le> 147 / 10000"
    unfolding w_def by linarith
  define k where "k = round_half_even (100 * w)"
  from round_half_even_error [of "100 * w"] w have "\<bar>real_of_int k\<bar> < 2"
    unfolding k_def by linarith
  then have "\<bar>k\<bar> < 2"
    by linarith
  then have "\<bar>k\<bar> \<le> 1"
    by simp
  then have "\<bar>real_of_int k\<bar> \<le> 1"
    by linarith
  then show ?thesis
    by (simp add: k_def w_def b_def)
qed

lemma node_xy_ring:
  "node_xy (ring_nodes r) ''bottom'' = Some (0, - val r)"
  "node_xy (ring_nodes r) ''right'' = Some (val r, 0)"
  "node_xy (ring_nodes r) ''top'' = Some (0, val r)"
  "node_xy (ring_nodes r) ''left'' = Some (- val r, 0)"
  by (simp_all add: node_xy_def by_id_def ring_nodes_def str_attr_def num_attr_def val_neg)

lemma specify_nodes_radiusD:
  assumes "specify_nodes p = Inr nodes" and "additional_params p ''radius'' = Some r"
  shows "nodes = ring_nodes r"
  using assms by (simp add: specify_nodes_cases)

lemma endpoints_match_arc:
  assumes "map_of e ''shape'' = Some (Str (arc_shape binary64 r a b))"
    and "str_attr e ''from'' = Some f"
    and "str_attr e ''to'' = Some t"
    and "node_xy nodes f = Some (fx, fy)"
    and "node_xy nodes t = Some (tx, ty)"
    and "\<bar>of_int (round_half_even
            (100 * binary64 (to_float binary64 r * binary64 (cos (binary64 a))))) / 100 - fx\<bar>
           \<le> 1 / 100"
    and "\<bar>of_int (round_half_even
            (100 * binary64 (to_float binary64 r * binary64 (sin (binary64 a))))) / 100 - fy\<bar>
           \<le> 1 / 100"
    and "\<bar>of_int (round_half_even
            (100 * binary64 (to_float binary64 r * binary64 (cos b)))) / 100 - tx\<bar>
           \<le> 1 / 100"
    and "\<bar>of_int (round_half_even
            (100 * binary64 (to_float binary64 r * binary64 (sin b)))) / 100 - ty\<bar>
           \<le> 1 / 100"
  shows "shape_endpoints_match nodes e"
proof -
  define rd where
    "rd = (\<lambda>(x :: real, y :: real). (of_int (round_half_even (100 * x)) / 100 :: real,
                   of_int (round_half_even (100 * y)) / 100 :: real))"
  define pts where "pts = map rd (arc_points binary64 r a b)"
  have z: "binary64 0 = 0" by simp
  note ends = ends_arc_points [where rnd = binary64 and r = r and a = a and b = b, OF z]
  have sp: "shape_points (arc_shape binary64 r a b) = Some pts"
    by (simp add: shape_points_arc_shape pts_def rd_def)
  have ne: "pts \<noteq> []"
    by (simp add: pts_def ends)
  have "hd pts = rd (hd (arc_points binary64 r a b))"
    by (simp add: pts_def hd_map ends)
  then have h: "coincide (hd pts) (fx, fy)"
    unfolding ends(2) using assms(6,7) by (simp add: rd_def coincide_def)
  have "last pts = rd (last (arc_points binary64 r a b))"
    by (simp add: pts_def last_map ends)
  then have l: "coincide (last pts) (tx, ty)"
    unfolding ends(3) using assms(8,9) by (simp add: rd_def coincide_def)
  from ne h l show ?thesis
    by (simp add: shape_endpoints_match_def assms(1-5) sp)
qed

lemma printed_unit:
  assumes "binary64 R = R" and "binary64 c = 1"
  shows "\<bar>real_of_int (round_half_even (100 * binary64 (R * binary64 c))) / 100 - R\<bar> \<le> 1 / 100"
  unfolding assms(2) mult_1_right assms(1) by (rule printed_near)

lemma printed_minus_unit:
  assumes "binary64 R = R" and "binary64 c = - 1"
  shows "\<bar>real_of_int (round_half_even (100 * binary64 (R * binary64 c))) / 100 - (- R)\<bar>
           \<le> 1 / 100"
proof -
  have "binary64 (R * binary64 c) = - R"
    unfolding assms(2) using assms(1) by (simp add: binary64_minus)
  then show ?thesis
    by (simp only: printed_near)
qed

text \<open>The floats that the cosine and the sine deliver at the five angles of the ring.\<close>

lemma arc_trig:
  "binary64 (val (div2 binary64 (neg (npi binary64)))) = val (div2 binary64 (neg (npi binary64)))"
  "binary64 (val (div2 binary64 (npi binary64))) = val (div2 binary64 (npi binary64))"
  "binary64 (val (npi binary64)) = val (npi binary64)"
  "\<bar>cos (val (div2 binary64 (neg (npi binary64))))\<bar> \<le> 18372 / 10 ^ 20"
  "binary64 (sin (val (div2 binary64 (neg (npi binary64))))) = - 1"
  "binary64 (cos 0) = 1"
  "\<bar>sin (0::real)\<bar> \<le> 18372 / 10 ^ 20"
  "\<bar>cos (val (div2 binary64 (npi binary64)))\<bar> \<le> 18372 / 10 ^ 20"
  "binary64 (sin (val (div2 binary64 (npi binary64)))) = 1"
  "binary64 (cos (val (npi binary64))) = - 1"
  "\<bar>sin (val (npi binary64))\<bar> \<le> 18372 / 10 ^ 20"
  "\<bar>cos (val (div2 binary64 (mul binary64 (I 3) (npi binary64))))\<bar> \<le> 18372 / 10 ^ 20"
  "binary64 (sin (val (div2 binary64 (mul binary64 (I 3) (npi binary64))))) = - 1"
  "cos (val (div2 binary64 (mul binary64 (I 3) (npi binary64)))) \<le> - (18367 / 10 ^ 20)"
proof -
  show "binary64 (val (div2 binary64 (neg (npi binary64)))) = val (div2 binary64 (neg (npi binary64)))"
    "binary64 (val (div2 binary64 (npi binary64))) = val (div2 binary64 (npi binary64))"
    "binary64 (val (npi binary64)) = val (npi binary64)"
    unfolding arc_angles(1,2) by (rule arc_angles)+
  show "\<bar>cos (val (div2 binary64 (neg (npi binary64))))\<bar> \<le> 18372 / 10 ^ 20"
    unfolding arc_angles(1) cos_minus by (rule numpy_trig)
  show "binary64 (sin (val (div2 binary64 (neg (npi binary64))))) = - 1"
    unfolding arc_angles(1) sin_minus binary64_minus numpy_trig(2) ..
  show "binary64 (cos 0) = 1" "\<bar>sin (0::real)\<bar> \<le> 18372 / 10 ^ 20"
    by simp_all
  show "\<bar>cos (val (div2 binary64 (npi binary64)))\<bar> \<le> 18372 / 10 ^ 20"
    "binary64 (sin (val (div2 binary64 (npi binary64)))) = 1"
    unfolding arc_angles(2) by (rule numpy_trig)+
  show "binary64 (cos (val (npi binary64))) = - 1" "\<bar>sin (val (npi binary64))\<bar> \<le> 18372 / 10 ^ 20"
    by (rule numpy_trig)+
  show "\<bar>cos (val (div2 binary64 (mul binary64 (I 3) (npi binary64))))\<bar> \<le> 18372 / 10 ^ 20"
    "binary64 (sin (val (div2 binary64 (mul binary64 (I 3) (npi binary64))))) = - 1"
    "cos (val (div2 binary64 (mul binary64 (I 3) (npi binary64)))) \<le> - (18367 / 10 ^ 20)"
    unfolding arc_angles(3) by (rule numpy_trig)+
qed

lemma shapes_of_ring:
  "map_of (ring_edges rnd r l s ! 0) ''shape''
     = Some (Str (arc_shape rnd r (val (div2 rnd (neg (npi rnd)))) 0))"
  "map_of (ring_edges rnd r l s ! 1) ''shape''
     = Some (Str (arc_shape rnd r 0 (val (div2 rnd (npi rnd)))))"
  "map_of (ring_edges rnd r l s ! 2) ''shape''
     = Some (Str (arc_shape rnd r (val (div2 rnd (npi rnd))) (val (npi rnd))))"
  "map_of (ring_edges rnd r l s ! 3) ''shape''
     = Some (Str (arc_shape rnd r (val (npi rnd)) (val (div2 rnd (mul rnd (I 3) (npi rnd))))))"
  "str_attr (ring_edges rnd r l s ! 0) ''from'' = Some ''bottom''"
  "str_attr (ring_edges rnd r l s ! 0) ''to'' = Some ''right''"
  "str_attr (ring_edges rnd r l s ! 1) ''from'' = Some ''right''"
  "str_attr (ring_edges rnd r l s ! 1) ''to'' = Some ''top''"
  "str_attr (ring_edges rnd r l s ! 2) ''from'' = Some ''top''"
  "str_attr (ring_edges rnd r l s ! 2) ''to'' = Some ''left''"
  "str_attr (ring_edges rnd r l s ! 3) ''from'' = Some ''left''"
  "str_attr (ring_edges rnd r l s ! 3) ''to'' = Some ''bottom''"
  by (simp_all add: ring_edges_def str_attr_def)

lemma endpoints_match_ring:
  assumes "is_binary64 r" and "0 < val r" and "val r \<le> 8 * 10 ^ 13"
  shows "shape_endpoints_match (ring_nodes r) (ring_edges binary64 r l s ! 0)"
    and "shape_endpoints_match (ring_nodes r) (ring_edges binary64 r l s ! 1)"
    and "shape_endpoints_match (ring_nodes r) (ring_edges binary64 r l s ! 2)"
    and "shape_endpoints_match (ring_nodes r) (ring_edges binary64 r l s ! 3)"
proof -
  have "(8::real) * 10 ^ 13 < 2 ^ 53"
    by simp
  with assms(2,3) have small: "\<bar>val r\<bar> < 2 ^ 53"
    by linarith
  note tf = to_float_binary64 [OF assms(1) small]
  note id = binary64_idem [OF assms(1) small]
  from assms(2) have pos: "0 \<le> val r" by simp
  note one = printed_unit [OF id]
  note neg = printed_minus_unit [OF id]
  note res = printed_residue [OF pos assms(3)]
  show "shape_endpoints_match (ring_nodes r) (ring_edges binary64 r l s ! 0)"
    using shapes_of_ring(1,5,6) node_xy_ring(1,2)
  proof (rule endpoints_match_arc)
    show "\<bar>real_of_int (round_half_even (100 * binary64 (to_float binary64 r
              * binary64 (cos (binary64 (val (div2 binary64 (neg (npi binary64)))))))))
            / 100 - 0\<bar> \<le> 1 / 100"
      unfolding tf arc_trig(1) using arc_trig(4) by (rule res)
    show "\<bar>real_of_int (round_half_even (100 * binary64 (to_float binary64 r
              * binary64 (sin (binary64 (val (div2 binary64 (neg (npi binary64)))))))))
            / 100 - (- val r)\<bar> \<le> 1 / 100"
      unfolding tf arc_trig(1) using arc_trig(5) by (rule neg)
    show "\<bar>real_of_int (round_half_even (100 * binary64 (to_float binary64 r
              * binary64 (cos 0)))) / 100 - val r\<bar> \<le> 1 / 100"
      unfolding tf using arc_trig(6) by (rule one)
    show "\<bar>real_of_int (round_half_even (100 * binary64 (to_float binary64 r
              * binary64 (sin 0)))) / 100 - 0\<bar> \<le> 1 / 100"
      unfolding tf using arc_trig(7) by (rule res)
  qed
  show "shape_endpoints_match (ring_nodes r) (ring_edges binary64 r l s ! 1)"
    using shapes_of_ring(2,7,8) node_xy_ring(2,3)
  proof (rule endpoints_match_arc)
    have z: "binary64 0 = 0" by simp
    show "\<bar>real_of_int (round_half_even (100 * binary64 (to_float binary64 r
              * binary64 (cos (binary64 0))))) / 100 - val r\<bar> \<le> 1 / 100"
      unfolding tf z using arc_trig(6) by (rule one)
    show "\<bar>real_of_int (round_half_even (100 * binary64 (to_float binary64 r
              * binary64 (sin (binary64 0))))) / 100 - 0\<bar> \<le> 1 / 100"
      unfolding tf z using arc_trig(7) by (rule res)
    show "\<bar>real_of_int (round_half_even (100 * binary64 (to_float binary64 r
              * binary64 (cos (val (div2 binary64 (npi binary64)))))))
            / 100 - 0\<bar> \<le> 1 / 100"
      unfolding tf using arc_trig(8) by (rule res)
    show "\<bar>real_of_int (round_half_even (100 * binary64 (to_float binary64 r
              * binary64 (sin (val (div2 binary64 (npi binary64)))))))
            / 100 - val r\<bar> \<le> 1 / 100"
      unfolding tf using arc_trig(9) by (rule one)
  qed
  show "shape_endpoints_match (ring_nodes r) (ring_edges binary64 r l s ! 2)"
    using shapes_of_ring(3,9,10) node_xy_ring(3,4)
  proof (rule endpoints_match_arc)
    show "\<bar>real_of_int (round_half_even (100 * binary64 (to_float binary64 r
              * binary64 (cos (binary64 (val (div2 binary64 (npi binary64))))))))
            / 100 - 0\<bar> \<le> 1 / 100"
      unfolding tf arc_trig(2) using arc_trig(8) by (rule res)
    show "\<bar>real_of_int (round_half_even (100 * binary64 (to_float binary64 r
              * binary64 (sin (binary64 (val (div2 binary64 (npi binary64))))))))
            / 100 - val r\<bar> \<le> 1 / 100"
      unfolding tf arc_trig(2) using arc_trig(9) by (rule one)
    show "\<bar>real_of_int (round_half_even (100 * binary64 (to_float binary64 r
              * binary64 (cos (val (npi binary64)))))) / 100 - (- val r)\<bar> \<le> 1 / 100"
      unfolding tf using arc_trig(10) by (rule neg)
    show "\<bar>real_of_int (round_half_even (100 * binary64 (to_float binary64 r
              * binary64 (sin (val (npi binary64)))))) / 100 - 0\<bar> \<le> 1 / 100"
      unfolding tf using arc_trig(11) by (rule res)
  qed
  show "shape_endpoints_match (ring_nodes r) (ring_edges binary64 r l s ! 3)"
    using shapes_of_ring(4,11,12) node_xy_ring(4,1)
  proof (rule endpoints_match_arc)
    show "\<bar>real_of_int (round_half_even (100 * binary64 (to_float binary64 r
              * binary64 (cos (binary64 (val (npi binary64))))))) / 100 - (- val r)\<bar>
            \<le> 1 / 100"
      unfolding tf arc_trig(3) using arc_trig(10) by (rule neg)
    show "\<bar>real_of_int (round_half_even (100 * binary64 (to_float binary64 r
              * binary64 (sin (binary64 (val (npi binary64))))))) / 100 - 0\<bar> \<le> 1 / 100"
      unfolding tf arc_trig(3) using arc_trig(11) by (rule res)
    show "\<bar>real_of_int (round_half_even (100 * binary64 (to_float binary64 r
              * binary64 (cos (val (div2 binary64 (mul binary64 (I 3) (npi binary64))))))))
            / 100 - 0\<bar> \<le> 1 / 100"
      unfolding tf using arc_trig(12) by (rule res)
    show "\<bar>real_of_int (round_half_even (100 * binary64 (to_float binary64 r
              * binary64 (sin (val (div2 binary64 (mul binary64 (I 3) (npi binary64))))))))
            / 100 - (- val r)\<bar> \<le> 1 / 100"
      unfolding tf using arc_trig(13) by (rule neg)
  qed
qed

text \<open>
  With radius \<open>1e14\<close> the last point of \<^verbatim>\<open>edge3\<close> has the abscissa
  \<^verbatim>\<open>r * cos(3 * pi / 2)\<close>, about \<open>-0.0184\<close>, which is printed as \<open>-0.02\<close>.
\<close>

lemma printed_at_1e14:
  "round_half_even (100 * binary64 (to_float binary64 (I (10 ^ 14))
      * binary64 (cos (val (div2 binary64 (mul binary64 (I 3) (npi binary64))))))) = - 2"
proof -
  define c where "c = cos (val (div2 binary64 (mul binary64 (I 3) (npi binary64))))"
  define tiny :: real where "tiny = 1 / 10 ^ 300"
  have tiny: "0 \<le> tiny" "tiny \<le> 1 / 1000000000000000000000000000000"
    by (simp_all add: tiny_def)
  have e: "\<bar>binary64 y - y\<bar> \<le> \<bar>y\<bar> / 9007199254740992 + tiny" for y
    unfolding tiny_def by (rule residue_error)
  have "\<bar>(10::int) ^ 14\<bar> < 2 ^ 53"
    by simp
  then have "binary64 (of_int (10 ^ 14)) = of_int (10 ^ 14)"
    by (rule binary64_of_int)
  then have tf: "to_float binary64 (I (10 ^ 14)) = 100000000000000"
    by simp
  from arc_trig(12,14) have c: "- (18372 / 100000000000000000000) \<le> c"
    "c \<le> - (18367 / 100000000000000000000)"
    unfolding c_def by simp_all
  define b where "b = binary64 c"
  from e [of c] c tiny have b: "- (18373 / 100000000000000000000) \<le> b"
    "b \<le> - (18366 / 100000000000000000000)"
    unfolding b_def by linarith+
  define w where "w = binary64 (100000000000000 * b)"
  from e [of "100000000000000 * b"] b tiny
  have w: "- (18374 / 1000000) \<le> w" "w \<le> - (18365 / 1000000)"
    unfolding w_def by linarith+
  have "round_half_even (100 * w) = - 2"
  proof (rule round_half_even_near)
    from w show "\<bar>100 * w - real_of_int (- 2)\<bar> < 1 / 2"
      by simp
  qed
  then show ?thesis
    unfolding tf w_def b_def c_def .
qed

text \<open>
  C6, as stated, fails on floats. With \<^verbatim>\<open>pi\<close> a float, \<^verbatim>\<open>cos(3 * pi / 2)\<close> is not 0
  but about \<open>-1.84e-16\<close>. With radius \<open>1e14\<close> the last point of the shape of
  \<^verbatim>\<open>edge3\<close> is printed with the abscissa \<open>-0.02\<close>, while its to node \<^verbatim>\<open>bottom\<close>
  has the abscissa 0: the two are \<open>2e-2\<close> apart.
\<close>

theorem shape_endpoints_counterexample:
  "specify_nodes (ring_params (I (10 ^ 14))) = Inr (ring_nodes (I (10 ^ 14)))
   \<and> specify_edges binary64 (ring_params (I (10 ^ 14)))
       = Inr (ring_edges binary64 (I (10 ^ 14)) (I 1) (I 30))
   \<and> map_of (ring_edges binary64 (I (10 ^ 14)) (I 1) (I 30) ! 3) ''shape''
       = Some (Str (arc_shape binary64 (I (10 ^ 14)) (val (npi binary64))
                     (val (div2 binary64 (mul binary64 (I 3) (npi binary64))))))
   \<and> map_option (fst \<circ> last)
         (shape_points (arc_shape binary64 (I (10 ^ 14)) (val (npi binary64))
                     (val (div2 binary64 (mul binary64 (I 3) (npi binary64))))))
       = Some (- (2 / 100))
   \<and> str_attr (ring_edges binary64 (I (10 ^ 14)) (I 1) (I 30) ! 3) ''to'' = Some ''bottom''
   \<and> node_xy (ring_nodes (I (10 ^ 14))) ''bottom'' = Some (0, - (10 ^ 14))
   \<and> \<not> shape_endpoints_match (ring_nodes (I (10 ^ 14)))
         (ring_edges binary64 (I (10 ^ 14)) (I 1) (I 30) ! 3)"
proof -
  define r where "r = I (10 ^ 14)"
  define a where "a = val (npi binary64)"
  define b where "b = val (div2 binary64 (mul binary64 (I 3) (npi binary64)))"
  define rd where
    "rd = (\<lambda>(x :: real, y :: real). (of_int (round_half_even (100 * x)) / 100 :: real,
                   of_int (round_half_even (100 * y)) / 100 :: real))"
  have o: "\<not> float_overflow r"
    by (simp add: r_def)
  have z: "binary64 0 = 0" by simp
  note ends = ends_arc_points [where rnd = binary64 and r = r and a = a and b = b, OF z]
  have sp: "shape_points (arc_shape binary64 r a b) = Some (map rd (arc_points binary64 r a b))"
    by (simp add: shape_points_arc_shape rd_def)
  have "fst (last (map rd (arc_points binary64 r a b)))
          = of_int (round_half_even (100 * binary64 (to_float binary64 r * binary64 (cos b)))) / 100"
    by (simp add: last_map ends rd_def)
  also have "\<dots> = - (2 / 100)"
    unfolding r_def b_def printed_at_1e14 by simp
  finally have x: "fst (last (map rd (arc_points binary64 r a b))) = - (2 / 100)" .
  have n: "node_xy (ring_nodes r) ''bottom'' = Some (0, - val r)"
    by (simp add: node_xy_ring)
  have "\<not> coincide (last (map rd (arc_points binary64 r a b))) (0, - val r)"
    unfolding coincide_def fst_conv x by simp
  then have m: "\<not> shape_endpoints_match (ring_nodes r) (ring_edges binary64 r (I 1) (I 30) ! 3)"
    unfolding shape_endpoints_match_def shapes_of_ring a_def [symmetric] b_def [symmetric]
    by (simp add: sp n node_xy_ring)
  from ring_params_results(1) [of r] ring_params_results(2) [OF o, of binary64]
    shapes_of_ring(4,12) [of binary64 r "I 1" "I 30"] sp x n m
  show ?thesis
    unfolding r_def a_def b_def by simp
qed

text \<open>
  C6, amended. For every radius above 0 and at most \<open>8e13\<close>, an int or a float, and
  every edge returned by \<^verbatim>\<open>specify_edges\<close>, the first and the last point of the
  polyline that the edge's shape string denotes coincide, within 1e-2 in each
  coordinate, with the coordinates of the edge's from node and to node as
  \<^verbatim>\<open>specify_nodes\<close> returns them. The points are those the code prints: the angles,
  the cosines and sines, and the products with the radius are floats.
\<close>

theorem shape_endpoints_at_nodes:
  assumes "specify_nodes p = Inr nodes"
    and "specify_edges binary64 p = Inr edges"
    and "additional_params p ''radius'' = Some r"
    and "is_binary64 r"
    and "0 < val r" and "val r \<le> 8 * 10 ^ 13"
  shows "\<forall>e \<in> set edges. shape_endpoints_match nodes e"
proof -
  from assms(1,3) have n: "nodes = ring_nodes r"
    by (rule specify_nodes_radiusD)
  from assms(2,3) obtain l s where e: "edges = ring_edges binary64 r l s"
    by (rule specify_edges_radiusD)
  note m = endpoints_match_ring [OF assms(4,5,6), of l s]
  have "set (ring_edges binary64 r l s)
      = {ring_edges binary64 r l s ! 0, ring_edges binary64 r l s ! 1,
         ring_edges binary64 r l s ! 2, ring_edges binary64 r l s ! 3}"
    by (simp add: ring_edges_def)
  with m show ?thesis
    unfolding n e by simp
qed

theorem shape_endpoints_at_nodes_witness:
  "specify_nodes tutorial_net_params = Inr (ring_nodes (I 40))
   \<and> specify_edges binary64 tutorial_net_params = Inr (ring_edges binary64 (I 40) (I 1) (I 30))
   \<and> additional_params tutorial_net_params ''radius'' = Some (I 40)
   \<and> is_binary64 (I 40)
   \<and> 0 < val (I 40) \<and> val (I 40) \<le> 8 * 10 ^ 13
   \<and> shape_endpoints_match (ring_nodes (I 40)) (ring_edges binary64 (I 40) (I 1) (I 30) ! 3)"
proof -
  have f: "is_binary64 (I 40)" and pos: "0 < val (I 40)" and hi: "val (I 40) \<le> 8 * 10 ^ 13"
    by simp_all
  have n: "ring_edges binary64 (I 40) (I 1) (I 30) ! 3 \<in> set (ring_edges binary64 (I 40) (I 1) (I 30))"
    by (rule nth_mem) (simp add: ring_edges_def)
  from shape_endpoints_at_nodes [OF tutorial_nodes tutorial_edges tutorial_params(1) f pos hi] n
  have "shape_endpoints_match (ring_nodes (I 40)) (ring_edges binary64 (I 40) (I 1) (I 30) ! 3)"
    by blast
  with tutorial_nodes tutorial_edges [of binary64] tutorial_params(1) f pos hi show ?thesis
    by blast
qed

end
